theory Spec2Isabelle
  imports Complex_Main "HOL-Library.Word"
begin

section \<open>The pin-state simulator (simulator/backend: board.hpp, board.cpp)\<close>

text \<open>
  \<^verbatim>\<open>enum class PinMode\<close> and \<^verbatim>\<open>struct PinState\<close> of board.hpp. The C++ \<^verbatim>\<open>double\<close> of
  \<^verbatim>\<open>analog_level\<close> is read as a real number: the theorems below are about which pins an
  operation touches and which value it stores, not about the rounding of the product.
\<close>

datatype PinMode = Input | Output | AnalogIn | AnalogOut

record PinState =
  mode :: PinMode
  digital_level :: bool
  analog_level :: real

text \<open>
  \<^verbatim>\<open>class Board\<close>. The \<^verbatim>\<open>std::unordered_map<std::size_t, double> scheduled_ramps_\<close> is an
  association list that the loop of \<^verbatim>\<open>tick\<close> walks entry by entry;
  \<^verbatim>\<open>scheduled_ramps_[index] = level\<close> is \<open>ramp_store\<close>, which overwrites the entry of a key
  that is present and adds one otherwise, so a key never occurs twice.
\<close>

record Board =
  board_name :: string
  digital_pins :: "PinState list"
  analog_pins :: "PinState list"
  scheduled_ramps :: "(nat \<times> real) list"

datatype error = OutOfRange string

definition default_pin :: PinState where
  "default_pin = \<lparr>mode = Input, digital_level = False, analog_level = 0\<rparr>"

text \<open>The constructor \<^verbatim>\<open>Board::Board(name, digital_pins, analog_pins)\<close>.\<close>

definition new_board :: "string \<Rightarrow> nat \<Rightarrow> nat \<Rightarrow> Board" where
  "new_board nm d a =
     \<lparr>board_name = nm, digital_pins = replicate d default_pin,
      analog_pins = replicate a default_pin, scheduled_ramps = []\<rparr>"

definition validate_digital_index :: "nat \<Rightarrow> Board \<Rightarrow> error + unit" where
  "validate_digital_index index b =
     (if index \<ge> length (digital_pins b) then Inl (OutOfRange ''Digital pin index out of range'')
      else Inr ())"

definition validate_analog_index :: "nat \<Rightarrow> Board \<Rightarrow> error + unit" where
  "validate_analog_index index b =
     (if index \<ge> length (analog_pins b) then Inl (OutOfRange ''Analog pin index out of range'')
      else Inr ())"

definition set_pin_mode :: "nat \<Rightarrow> PinMode \<Rightarrow> Board \<Rightarrow> error + Board" where
  "set_pin_mode index m b =
     (if index < length (digital_pins b) then
        Inr (b\<lparr>digital_pins := (digital_pins b)[index := (digital_pins b ! index)\<lparr>mode := m\<rparr>]\<rparr>)
      else if index < length (analog_pins b) then
        Inr (b\<lparr>analog_pins := (analog_pins b)[index := (analog_pins b ! index)\<lparr>mode := m\<rparr>]\<rparr>)
      else Inl (OutOfRange ''Invalid pin index''))"

definition write_digital :: "nat \<Rightarrow> bool \<Rightarrow> Board \<Rightarrow> error + Board" where
  "write_digital index level b =
     (case validate_digital_index index b of
        Inl e \<Rightarrow> Inl e
      | Inr _ \<Rightarrow>
          Inr (b\<lparr>digital_pins :=
                 (digital_pins b)[index := (digital_pins b ! index)\<lparr>mode := Output, digital_level := level\<rparr>]\<rparr>))"

definition read_digital :: "nat \<Rightarrow> Board \<Rightarrow> error + bool" where
  "read_digital index b =
     (case validate_digital_index index b of
        Inl e \<Rightarrow> Inl e
      | Inr _ \<Rightarrow> Inr (digital_level (digital_pins b ! index)))"

fun ramp_store :: "nat \<Rightarrow> real \<Rightarrow> (nat \<times> real) list \<Rightarrow> (nat \<times> real) list" where
  "ramp_store k v [] = [(k, v)]"
| "ramp_store k v (e # es) = (if fst e = k then (k, v) # es else e # ramp_store k v es)"

definition write_analog :: "nat \<Rightarrow> real \<Rightarrow> Board \<Rightarrow> error + Board" where
  "write_analog index level b =
     (case validate_analog_index index b of
        Inl e \<Rightarrow> Inl e
      | Inr _ \<Rightarrow>
          Inr (b\<lparr>analog_pins :=
                 (analog_pins b)[index := (analog_pins b ! index)\<lparr>mode := AnalogOut, analog_level := level\<rparr>],
               scheduled_ramps := ramp_store index level (scheduled_ramps b)\<rparr>))"

definition read_analog :: "nat \<Rightarrow> Board \<Rightarrow> error + real" where
  "read_analog index b =
     (case validate_analog_index index b of
        Inl e \<Rightarrow> Inl e
      | Inr _ \<Rightarrow> Inr (analog_level (analog_pins b ! index)))"

definition decay_factor :: real where
  "decay_factor = 95 / 100"

text \<open>The body of the first loop of \<^verbatim>\<open>tick\<close>, for one pin.\<close>

definition decay_pin :: "PinState \<Rightarrow> PinState" where
  "decay_pin p =
     (if mode p = AnalogOut then p\<lparr>analog_level := analog_level p * decay_factor\<rparr> else p)"

text \<open>The body of the second loop of \<^verbatim>\<open>tick\<close>, for one entry of the map.\<close>

definition restore_entry :: "nat \<times> real \<Rightarrow> PinState list \<Rightarrow> PinState list" where
  "restore_entry entry pins =
     (let index = fst entry in
      if index < length pins then pins[index := (pins ! index)\<lparr>analog_level := snd entry\<rparr>]
      else pins)"

definition tick :: "Board \<Rightarrow> Board" where
  "tick b =
     b\<lparr>analog_pins := fold restore_entry (scheduled_ramps b) (map decay_pin (analog_pins b))\<rparr>"

text \<open>
  A client's calls on a board, in order. A call that throws has changed nothing (each
  method validates before it writes), so the board after it is the board before it.
\<close>

datatype board_op =
  SetPinMode nat PinMode
| WriteDigital nat bool
| WriteAnalog nat real
| Tick

fun keep :: "Board \<Rightarrow> error + Board \<Rightarrow> Board" where
  "keep b (Inl e) = b"
| "keep b (Inr b') = b'"

fun apply_op :: "board_op \<Rightarrow> Board \<Rightarrow> Board" where
  "apply_op (SetPinMode i m) b = keep b (set_pin_mode i m b)"
| "apply_op (WriteDigital i l) b = keep b (write_digital i l b)"
| "apply_op (WriteAnalog i v) b = keep b (write_analog i v b)"
| "apply_op Tick b = tick b"

definition run_ops :: "board_op list \<Rightarrow> Board \<Rightarrow> Board" where
  "run_ops ops b = fold apply_op ops b"

text \<open>
  The value of the last \<^verbatim>\<open>write_analog\<close> on pin \<open>i\<close> among the calls \<open>ops\<close> on a board
  of \<open>a\<close> analog pins, if there is one (a write to an index out of range throws).
\<close>

fun last_target :: "nat \<Rightarrow> nat \<Rightarrow> board_op list \<Rightarrow> real option \<Rightarrow> real option" where
  "last_target a i [] acc = acc"
| "last_target a i (WriteAnalog j v # ops) acc =
     last_target a i ops (if j = i \<and> j < a then Some v else acc)"
| "last_target a i (_ # ops) acc = last_target a i ops acc"

fun writes_analog_pin :: "nat \<Rightarrow> board_op \<Rightarrow> bool" where
  "writes_analog_pin i (WriteAnalog j v) = (j = i)"
| "writes_analog_pin i _ = False"

subsection \<open>The invariant of the scheduled ramps\<close>

definition ramps_ok :: "Board \<Rightarrow> bool" where
  "ramps_ok b \<longleftrightarrow>
     distinct (map fst (scheduled_ramps b)) \<and>
     (\<forall>e \<in> set (scheduled_ramps b).
        fst e < length (analog_pins b) \<and> analog_level (analog_pins b ! fst e) = snd e)"

lemma map_of_ramp_store:
  "map_of (ramp_store k v es) = (map_of es)(k \<mapsto> v)"
  by (induction es) (auto simp: fun_eq_iff)

lemma fst_set_ramp_store:
  "fst ` set (ramp_store k v es) = insert k (fst ` set es)"
  by (induction es) auto

lemma distinct_ramp_store:
  "distinct (map fst es) \<Longrightarrow> distinct (map fst (ramp_store k v es))"
proof (induction es)
  case Nil
  then show ?case by simp
next
  case (Cons e es)
  have "fst e \<notin> fst ` set (ramp_store k v es)" if "fst e \<noteq> k"
    using Cons.prems that by (simp add: fst_set_ramp_store)
  with Cons show ?case by auto
qed

lemma length_fold_restore:
  "length (fold restore_entry es pins) = length pins"
  by (induction es arbitrary: pins) (auto simp: restore_entry_def Let_def)

lemma fold_restore_nth:
  "distinct (map fst es) \<Longrightarrow> i < length pins \<Longrightarrow>
   fold restore_entry es pins ! i =
     (case map_of es i of None \<Rightarrow> pins ! i | Some v \<Rightarrow> (pins ! i)\<lparr>analog_level := v\<rparr>)"
proof (induction es arbitrary: pins)
  case Nil
  then show ?case by simp
next
  case (Cons e es)
  obtain k v where e: "e = (k, v)" by (cases e)
  from Cons.prems have d: "distinct (map fst es)" and k: "k \<notin> fst ` set es"
    by (auto simp: e)
  have len: "i < length (restore_entry e pins)"
    using Cons.prems by (simp add: restore_entry_def Let_def)
  have none: "map_of es k = None"
    using k by (simp add: map_of_eq_None_iff)
  have fold_eq: "fold restore_entry (e # es) pins = fold restore_entry es (restore_entry e pins)"
    by simp
  show ?case
  proof (cases "i = k")
    case True
    have st: "restore_entry e pins ! i = (pins ! i)\<lparr>analog_level := v\<rparr>"
      using Cons.prems True by (simp add: e restore_entry_def)
    have "map_of es i = None" "map_of (e # es) i = Some v"
      using none True by (simp_all add: e)
    then show ?thesis
      unfolding fold_eq Cons.IH [OF d len] st by simp
  next
    case False
    have st: "restore_entry e pins ! i = pins ! i"
      using False by (simp add: e restore_entry_def Let_def)
    have "map_of (e # es) i = map_of es i"
      using False by (simp add: e)
    then show ?thesis
      unfolding fold_eq Cons.IH [OF d len] st by simp
  qed
qed

lemma tick_fields:
  "digital_pins (tick b) = digital_pins b"
  "scheduled_ramps (tick b) = scheduled_ramps b"
  "board_name (tick b) = board_name b"
  "length (analog_pins (tick b)) = length (analog_pins b)"
  by (simp_all add: tick_def length_fold_restore)

lemma tick_nth:
  assumes "distinct (map fst (scheduled_ramps b))" and "i < length (analog_pins b)"
  shows "analog_pins (tick b) ! i =
     (case map_of (scheduled_ramps b) i of
        None \<Rightarrow> decay_pin (analog_pins b ! i)
      | Some v \<Rightarrow> (decay_pin (analog_pins b ! i))\<lparr>analog_level := v\<rparr>)"
  using assms by (simp add: tick_def fold_restore_nth split: option.split)

lemma ramps_ok_new_board: "ramps_ok (new_board nm d a)"
  by (simp add: ramps_ok_def new_board_def)

lemma ramps_ok_tick:
  assumes "ramps_ok b"
  shows "ramps_ok (tick b)"
proof -
  from assms have d: "distinct (map fst (scheduled_ramps b))"
    by (simp add: ramps_ok_def)
  have "fst e < length (analog_pins (tick b)) \<and> analog_level (analog_pins (tick b) ! fst e) = snd e"
    if "e \<in> set (scheduled_ramps b)" for e
  proof -
    from assms that have lt: "fst e < length (analog_pins b)"
      by (auto simp: ramps_ok_def)
    from d that have "map_of (scheduled_ramps b) (fst e) = Some (snd e)"
      by (cases e) simp
    with tick_nth [OF d lt] lt show ?thesis
      by (simp add: tick_fields)
  qed
  with d show ?thesis
    by (simp add: ramps_ok_def tick_fields)
qed

lemma ramps_ok_set_pin_mode:
  assumes "ramps_ok b"
  shows "ramps_ok (keep b (set_pin_mode i m b))"
proof -
  have "analog_level ((analog_pins b)[i := (analog_pins b ! i)\<lparr>mode := m\<rparr>] ! k) =
        analog_level (analog_pins b ! k)" if "k < length (analog_pins b)" for k
    using that by (cases "k = i") simp_all
  with assms show ?thesis
    by (auto simp: ramps_ok_def set_pin_mode_def)
qed

lemma ramps_ok_write_digital:
  "ramps_ok b \<Longrightarrow> ramps_ok (keep b (write_digital i l b))"
  by (auto simp: ramps_ok_def write_digital_def validate_digital_index_def)

lemma ramps_ok_write_analog:
  assumes "ramps_ok b"
  shows "ramps_ok (keep b (write_analog i v b))"
proof (cases "i < length (analog_pins b)")
  case False
  with assms show ?thesis
    by (simp add: write_analog_def validate_analog_index_def)
next
  case True
  let ?es = "scheduled_ramps b"
  let ?pins = "(analog_pins b)[i := (analog_pins b ! i)\<lparr>mode := AnalogOut, analog_level := v\<rparr>]"
  from assms have d: "distinct (map fst ?es)"
    by (simp add: ramps_ok_def)
  have d': "distinct (map fst (ramp_store i v ?es))"
    using d by (rule distinct_ramp_store)
  have "fst e < length ?pins \<and> analog_level (?pins ! fst e) = snd e"
    if "e \<in> set (ramp_store i v ?es)" for e
  proof -
    obtain k w where e: "e = (k, w)" by (cases e)
    from that d' have m: "map_of (ramp_store i v ?es) k = Some w"
      by (simp add: e)
    show ?thesis
    proof (cases "k = i")
      case True
      with m have "w = v" by (simp add: map_of_ramp_store)
      with True \<open>i < length (analog_pins b)\<close> show ?thesis by (simp add: e)
    next
      case False
      with m have "map_of ?es k = Some w" by (simp add: map_of_ramp_store)
      then have "(k, w) \<in> set ?es" by (rule map_of_SomeD)
      with assms have "k < length (analog_pins b) \<and> analog_level (analog_pins b ! k) = w"
        by (auto simp: ramps_ok_def)
      with False show ?thesis by (simp add: e)
    qed
  qed
  with d' True show ?thesis
    by (simp add: ramps_ok_def write_analog_def validate_analog_index_def)
qed

lemma ramps_ok_apply_op: "ramps_ok b \<Longrightarrow> ramps_ok (apply_op x b)"
  by (cases x)
    (simp_all add: ramps_ok_set_pin_mode ramps_ok_write_digital ramps_ok_write_analog ramps_ok_tick)

lemma ramps_ok_run_ops: "ramps_ok b \<Longrightarrow> ramps_ok (run_ops ops b)"
  unfolding run_ops_def by (induction ops arbitrary: b) (simp_all add: ramps_ok_apply_op)

lemma length_analog_apply_op: "length (analog_pins (apply_op x b)) = length (analog_pins b)"
  by (cases x)
    (auto simp: set_pin_mode_def write_digital_def write_analog_def tick_fields
      validate_digital_index_def validate_analog_index_def)

lemma length_analog_run_ops: "length (analog_pins (run_ops ops b)) = length (analog_pins b)"
  unfolding run_ops_def by (induction ops arbitrary: b) (simp_all add: length_analog_apply_op)

lemma ramps_apply_op_other:
  "\<not> writes_analog_pin i x \<Longrightarrow>
   map_of (scheduled_ramps (apply_op x b)) i = map_of (scheduled_ramps b) i"
  by (cases x)
    (auto simp: set_pin_mode_def write_digital_def write_analog_def tick_fields
      validate_digital_index_def validate_analog_index_def map_of_ramp_store)

lemma ramps_run_ops_other:
  "\<forall>x \<in> set ops. \<not> writes_analog_pin i x \<Longrightarrow>
   map_of (scheduled_ramps (run_ops ops b)) i = map_of (scheduled_ramps b) i"
  unfolding run_ops_def by (induction ops arbitrary: b) (simp_all add: ramps_apply_op_other)

lemma ramps_apply_op:
  "map_of (scheduled_ramps (apply_op x b)) i =
   last_target (length (analog_pins b)) i [x] (map_of (scheduled_ramps b) i)"
  by (cases x)
    (auto simp: set_pin_mode_def write_digital_def write_analog_def tick_fields
      validate_digital_index_def validate_analog_index_def map_of_ramp_store)

lemma last_target_Cons:
  "last_target a i (x # ops) acc = last_target a i ops (last_target a i [x] acc)"
  by (cases x) simp_all

lemma ramps_run_ops:
  "map_of (scheduled_ramps (run_ops ops b)) i =
   last_target (length (analog_pins b)) i ops (map_of (scheduled_ramps b) i)"
proof (induction ops arbitrary: b)
  case Nil
  then show ?case by (simp add: run_ops_def)
next
  case (Cons x ops)
  have "run_ops (x # ops) b = run_ops ops (apply_op x b)"
    by (simp add: run_ops_def)
  then show ?case
    using Cons.IH [of "apply_op x b"]
    by (simp add: length_analog_apply_op ramps_apply_op last_target_Cons [of _ _ x ops])
qed

lemma ramps_ok_level:
  "ramps_ok b \<Longrightarrow> map_of (scheduled_ramps b) i = Some v \<Longrightarrow>
   i < length (analog_pins b) \<and> analog_level (analog_pins b ! i) = v"
  by (auto simp: ramps_ok_def dest!: map_of_SomeD)

lemma funpow_tick_run_ops: "(tick ^^ n) b = run_ops (replicate n Tick) b"
proof -
  have "apply_op Tick = tick"
    by (rule ext) simp
  then show ?thesis
    by (simp add: run_ops_def)
qed

subsection \<open>The claims about the board\<close>

text \<open>
  C3. The ramps are an \<^verbatim>\<open>unordered_map\<close>, so a pin index is the key of at most one
  entry. On every such board \<open>tick\<close> leaves the digital pins, the ramps, and the mode and
  digital level of every analog pin as they are, and the level of analog pin \<open>i\<close> after
  the tick is the target the ramps hold for \<open>i\<close> when they hold one (the restore runs after
  the decay, so the target is not decayed), and otherwise the old level, times 0.95 when
  the mode of the pin is \<open>AnalogOut\<close>. On the board that a sequence of calls has produced
  from a new board the keys are distinct, and the target the ramps hold for \<open>i\<close> is the
  value of the last \<^verbatim>\<open>write_analog\<close> on \<open>i\<close>, none when \<open>i\<close> was never written.
\<close>

theorem tick_decay_then_restore:
  "(distinct (map fst (scheduled_ramps b)) \<longrightarrow>
      digital_pins (tick b) = digital_pins b \<and>
      scheduled_ramps (tick b) = scheduled_ramps b \<and>
      length (analog_pins (tick b)) = length (analog_pins b) \<and>
      (\<forall>i < length (analog_pins b).
         mode (analog_pins (tick b) ! i) = mode (analog_pins b ! i) \<and>
         digital_level (analog_pins (tick b) ! i) = digital_level (analog_pins b ! i) \<and>
         analog_level (analog_pins (tick b) ! i) =
           (case map_of (scheduled_ramps b) i of
              Some v \<Rightarrow> v
            | None \<Rightarrow>
                if mode (analog_pins b ! i) = AnalogOut
                then analog_level (analog_pins b ! i) * (95 / 100)
                else analog_level (analog_pins b ! i)))) \<and>
   (b = run_ops ops (new_board nm d a) \<longrightarrow>
      distinct (map fst (scheduled_ramps b)) \<and>
      length (analog_pins b) = a \<and>
      (\<forall>i. map_of (scheduled_ramps b) i = last_target a i ops None))"
proof (intro conjI impI allI)
  assume dist: "distinct (map fst (scheduled_ramps b))"
  show "digital_pins (tick b) = digital_pins b"
    by (simp add: tick_fields)
  show "scheduled_ramps (tick b) = scheduled_ramps b"
    by (simp add: tick_fields)
  show "length (analog_pins (tick b)) = length (analog_pins b)"
    by (simp add: tick_fields)
  fix i
  assume i: "i < length (analog_pins b)"
  note nth = tick_nth [OF dist i]
  show "mode (analog_pins (tick b) ! i) = mode (analog_pins b ! i)"
    unfolding nth by (simp add: decay_pin_def split: option.split)
  show "digital_level (analog_pins (tick b) ! i) = digital_level (analog_pins b ! i)"
    unfolding nth by (simp add: decay_pin_def split: option.split)
  show "analog_level (analog_pins (tick b) ! i) =
          (case map_of (scheduled_ramps b) i of
             Some v \<Rightarrow> v
           | None \<Rightarrow>
               if mode (analog_pins b ! i) = AnalogOut
               then analog_level (analog_pins b ! i) * (95 / 100)
               else analog_level (analog_pins b ! i))"
    unfolding nth by (simp add: decay_pin_def decay_factor_def split: option.split)
next
  assume b: "b = run_ops ops (new_board nm d a)"
  have "ramps_ok b"
    unfolding b by (rule ramps_ok_run_ops) (rule ramps_ok_new_board)
  then show "distinct (map fst (scheduled_ramps b))"
    by (simp add: ramps_ok_def)
  show "length (analog_pins b) = a"
    by (simp add: b length_analog_run_ops) (simp add: new_board_def)
  show "map_of (scheduled_ramps b) i = last_target a i ops None" for i
    unfolding b by (simp add: ramps_run_ops) (simp add: new_board_def)
qed

theorem tick_decay_then_restore_witness:
  "analog_level (analog_pins (tick
      \<lparr>board_name = ''Bench'', digital_pins = [],
       analog_pins =
         [\<lparr>mode = AnalogOut, digital_level = False, analog_level = 1\<rparr>,
          \<lparr>mode = AnalogOut, digital_level = False, analog_level = 1\<rparr>,
          \<lparr>mode = AnalogIn, digital_level = False, analog_level = 1\<rparr>],
       scheduled_ramps = [(1, 1/2)]\<rparr>) ! 0) = 19/20 \<and>
   analog_level (analog_pins (tick
      \<lparr>board_name = ''Bench'', digital_pins = [],
       analog_pins =
         [\<lparr>mode = AnalogOut, digital_level = False, analog_level = 1\<rparr>,
          \<lparr>mode = AnalogOut, digital_level = False, analog_level = 1\<rparr>,
          \<lparr>mode = AnalogIn, digital_level = False, analog_level = 1\<rparr>],
       scheduled_ramps = [(1, 1/2)]\<rparr>) ! 1) = 1/2 \<and>
   analog_level (analog_pins (tick
      \<lparr>board_name = ''Bench'', digital_pins = [],
       analog_pins =
         [\<lparr>mode = AnalogOut, digital_level = False, analog_level = 1\<rparr>,
          \<lparr>mode = AnalogOut, digital_level = False, analog_level = 1\<rparr>,
          \<lparr>mode = AnalogIn, digital_level = False, analog_level = 1\<rparr>],
       scheduled_ramps = [(1, 1/2)]\<rparr>) ! 2) = 1 \<and>
   map_of (scheduled_ramps
      (run_ops [WriteAnalog 1 (1/4), Tick, WriteAnalog 1 (1/2), WriteAnalog 7 1]
         (new_board ''Uno'' 1 2))) 1 = Some (1/2) \<and>
   map_of (scheduled_ramps
      (run_ops [WriteAnalog 1 (1/4), Tick, WriteAnalog 1 (1/2), WriteAnalog 7 1]
         (new_board ''Uno'' 1 2))) 7 = None"
proof -
  let ?b = "\<lparr>board_name = ''Bench'', digital_pins = [],
       analog_pins =
         [\<lparr>mode = AnalogOut, digital_level = False, analog_level = 1\<rparr>,
          \<lparr>mode = AnalogOut, digital_level = False, analog_level = 1\<rparr>,
          \<lparr>mode = AnalogIn, digital_level = False, analog_level = 1::real\<rparr>],
       scheduled_ramps = [(1::nat, 1/2::real)]\<rparr>"
  let ?ops = "[WriteAnalog 1 (1/4), Tick, WriteAnalog 1 (1/2), WriteAnalog 7 1]"
  have all3: "(\<forall>i<3. P i) \<longleftrightarrow> P 0 \<and> P 1 \<and> P (2::nat)" for P
    by (auto simp: less_Suc_eq numeral_3_eq_3 numeral_2_eq_2)
  from tick_decay_then_restore [of ?b ?ops "''Uno''" 1 2]
  have "analog_level (analog_pins (tick ?b) ! 0) = 19/20 \<and>
        analog_level (analog_pins (tick ?b) ! 1) = 1/2 \<and>
        analog_level (analog_pins (tick ?b) ! 2) = 1"
    by (simp add: all3)
  moreover
  from tick_decay_then_restore [of "run_ops ?ops (new_board ''Uno'' 1 2)" ?ops "''Uno''" 1 2]
  have "map_of (scheduled_ramps (run_ops ?ops (new_board ''Uno'' 1 2))) 1 = Some (1/2) \<and>
        map_of (scheduled_ramps (run_ops ?ops (new_board ''Uno'' 1 2))) 7 = None"
    by simp
  ultimately show ?thesis
    by simp
qed

text \<open>
  C8. After \<^verbatim>\<open>write_analog(i, v)\<close> on a pin in range, on the board any sequence of calls has
  produced, \<^verbatim>\<open>read_analog(i)\<close> returns \<open>v\<close> after any number of ticks, and after any later
  calls among which none writes pin \<open>i\<close> again: the decay is not observable on a pin that
  has been written.
\<close>

theorem read_analog_after_ticks:
  assumes "i < a"
  shows "\<exists>b'. write_analog i v (run_ops ops (new_board nm d a)) = Inr b' \<and>
           read_analog i ((tick ^^ n) b') = Inr v \<and>
           ((\<forall>x \<in> set later. \<not> writes_analog_pin i x) \<longrightarrow>
              read_analog i (run_ops later b') = Inr v)"
proof -
  let ?b = "run_ops ops (new_board nm d a)"
  let ?b' = "?b\<lparr>analog_pins :=
                 (analog_pins ?b)[i := (analog_pins ?b ! i)\<lparr>mode := AnalogOut, analog_level := v\<rparr>],
               scheduled_ramps := ramp_store i v (scheduled_ramps ?b)\<rparr>"
  have len: "length (analog_pins ?b) = a"
    by (simp add: length_analog_run_ops) (simp add: new_board_def)
  have w: "write_analog i v ?b = Inr ?b'"
    using assms len by (simp add: write_analog_def validate_analog_index_def)
  have "ramps_ok ?b"
    by (rule ramps_ok_run_ops) (rule ramps_ok_new_board)
  then have "ramps_ok (keep ?b (write_analog i v ?b))"
    by (rule ramps_ok_write_analog)
  then have ok: "ramps_ok ?b'"
    by (simp add: w)
  have target: "map_of (scheduled_ramps ?b') i = Some v"
    by (simp add: map_of_ramp_store)
  have later: "read_analog i (run_ops xs ?b') = Inr v"
    if "\<forall>x \<in> set xs. \<not> writes_analog_pin i x" for xs
  proof -
    have "ramps_ok (run_ops xs ?b')"
      using ok by (rule ramps_ok_run_ops)
    moreover have "map_of (scheduled_ramps (run_ops xs ?b')) i = Some v"
      using ramps_run_ops_other [OF that] target by simp
    ultimately have "i < length (analog_pins (run_ops xs ?b')) \<and>
        analog_level (analog_pins (run_ops xs ?b') ! i) = v"
      by (rule ramps_ok_level)
    then show ?thesis
      by (simp add: read_analog_def validate_analog_index_def)
  qed
  have "read_analog i ((tick ^^ n) ?b') = Inr v"
    unfolding funpow_tick_run_ops by (rule later) simp
  with w later show ?thesis
    by blast
qed

theorem read_analog_after_ticks_witness:
  "(0::nat) < 6 \<and>
   (\<exists>b'. write_analog 0 1 (run_ops [WriteDigital 0 True] (new_board ''Uno-like'' 14 6)) = Inr b' \<and>
      read_analog 0 ((tick ^^ 3) b') = Inr 1 \<and>
      read_analog 0 (run_ops [Tick, WriteAnalog 1 (1/5), Tick] b') = Inr 1)"
proof -
  have h: "(0::nat) < 6" by simp
  have l: "\<forall>x \<in> set [Tick, WriteAnalog 1 (1/5), Tick]. \<not> writes_analog_pin 0 x"
    by simp
  from read_analog_after_ticks [OF h, of 1 "[WriteDigital 0 True]" "''Uno-like''" 14 3
      "[Tick, WriteAnalog 1 (1/5), Tick]"] l h
  show ?thesis by blast
qed

text \<open>
  C9. \<^verbatim>\<open>set_pin_mode\<close> tests the digital range first: an index below the number of digital
  pins sets that digital pin's mode and leaves the analog pins alone; on a board with at
  least as many digital pins as analog pins no call changes the analog pins; and the call
  throws exactly when the index is at or beyond both counts.
\<close>

theorem set_pin_mode_digital_first:
  "(index < length (digital_pins b) \<longrightarrow>
      set_pin_mode index m b =
        Inr (b\<lparr>digital_pins := (digital_pins b)[index := (digital_pins b ! index)\<lparr>mode := m\<rparr>]\<rparr>)) \<and>
   (length (analog_pins b) \<le> length (digital_pins b) \<longrightarrow>
      (\<forall>b'. set_pin_mode index m b = Inr b' \<longrightarrow> analog_pins b' = analog_pins b)) \<and>
   ((set_pin_mode index m b = Inl (OutOfRange ''Invalid pin index'')) =
      (length (digital_pins b) \<le> index \<and> length (analog_pins b) \<le> index)) \<and>
   ((\<exists>e. set_pin_mode index m b = Inl e) =
      (length (digital_pins b) \<le> index \<and> length (analog_pins b) \<le> index))"
  by (auto simp: set_pin_mode_def)

theorem set_pin_mode_digital_first_witness:
  "(1::nat) < length (digital_pins (new_board ''Test'' 4 2)) \<and>
   length (analog_pins (new_board ''Test'' 4 2)) \<le> length (digital_pins (new_board ''Test'' 4 2)) \<and>
   (\<exists>b'. set_pin_mode 1 Output (new_board ''Test'' 4 2) = Inr b' \<and>
      analog_pins b' = analog_pins (new_board ''Test'' 4 2) \<and>
      mode (digital_pins b' ! 1) = Output) \<and>
   set_pin_mode 4 Output (new_board ''Test'' 4 2) = Inl (OutOfRange ''Invalid pin index'')"
proof -
  let ?b = "new_board ''Test'' 4 2"
  have h1: "(1::nat) < length (digital_pins ?b)"
    by (simp add: new_board_def)
  have h2: "length (analog_pins ?b) \<le> length (digital_pins ?b)"
    by (simp add: new_board_def)
  have h3: "length (digital_pins ?b) \<le> 4 \<and> length (analog_pins ?b) \<le> 4"
    by (simp add: new_board_def)
  from set_pin_mode_digital_first [of 4 ?b Output] h3
  have "set_pin_mode 4 Output ?b = Inl (OutOfRange ''Invalid pin index'')"
    by blast
  with set_pin_mode_digital_first [of 1 ?b Output] h1 h2 show ?thesis
    by simp
qed

section \<open>The command dispatcher (libraries/HumanReadableApi)\<close>

text \<open>
  The line buffer is a list of bytes and a \<^verbatim>\<open>char *\<close> into it is an offset. A read or a
  write at an offset outside the list is undefined behaviour in C: the model returns
  \<open>None\<close> there, so a result \<open>Some\<close> says that every access stayed inside the buffer.
\<close>

definition NUL :: char where
  "NUL = CHR 0x00"

definition SPACE :: char where
  "SPACE = CHR '' ''"

text \<open>
  What a call of the dispatcher does to the outside: it invokes the handler of the
  command at an index with \<^verbatim>\<open>argc\<close> and the strings \<^verbatim>\<open>argv\<close> points to, or prints a
  line on the stream.
\<close>

datatype hra_event =
  Handler nat nat "string list"
| Println string

text \<open>The C string that starts at offset \<open>p\<close>: the bytes before the first NUL.\<close>

definition c_str :: "char list \<Rightarrow> nat \<Rightarrow> string option" where
  "c_str mem p =
     (if NUL \<in> set (drop p mem) then Some (takeWhile (\<lambda>c. c \<noteq> NUL) (drop p mem)) else None)"

text \<open>\<^verbatim>\<open>while (*p == ' ') p++;\<close>\<close>

function skip_spaces :: "char list \<Rightarrow> nat \<Rightarrow> nat option" where
  "skip_spaces mem p =
     (if p < length mem then
        if mem ! p = SPACE then skip_spaces mem (Suc p) else Some p
      else None)"
  by pat_completeness auto
termination
  by (relation "measure (\<lambda>(mem, p). length mem - p)") auto

text \<open>\<^verbatim>\<open>while (*p && *p != ' ') p++;\<close>\<close>

function skip_token :: "char list \<Rightarrow> nat \<Rightarrow> nat option" where
  "skip_token mem p =
     (if p < length mem then
        if mem ! p \<noteq> NUL \<and> mem ! p \<noteq> SPACE then skip_token mem (Suc p) else Some p
      else None)"
  by pat_completeness auto
termination
  by (relation "measure (\<lambda>(mem, p). length mem - p)") auto

declare skip_spaces.simps [simp del] skip_token.simps [simp del]

lemma skip_spaces_Some:
  "skip_spaces mem p = Some q \<Longrightarrow> p \<le> q \<and> q < length mem \<and> mem ! q \<noteq> SPACE"
proof (induction mem p rule: skip_spaces.induct)
  case (1 mem p)
  then show ?case
    by (subst (asm) (2) skip_spaces.simps) (auto split: if_splits)
qed

lemma skip_token_Some:
  "skip_token mem p = Some q \<Longrightarrow>
   p \<le> q \<and> q < length mem \<and> (mem ! q = NUL \<or> mem ! q = SPACE) \<and>
   (mem ! p \<noteq> NUL \<and> mem ! p \<noteq> SPACE \<longrightarrow> p < q)"
proof (induction mem p rule: skip_token.induct)
  case (1 mem p)
  then show ?case
    by (subst (asm) (2) skip_token.simps) (auto split: if_splits)
qed

text \<open>
  The outer loop of \<^verbatim>\<open>handleLine\<close>: \<open>argv\<close> holds the offsets stored so far
  (\<^verbatim>\<open>argc\<close> is its length), and \<^verbatim>\<open>*p++ = '\0'\<close> overwrites the space that ends a token.
\<close>

function tokenize :: "char list \<Rightarrow> nat \<Rightarrow> nat list \<Rightarrow> (char list \<times> nat list) option" where
  "tokenize mem p argv =
     (if p < length mem then
        if mem ! p \<noteq> NUL \<and> length argv < 10 then
          (case skip_spaces mem p of
             None \<Rightarrow> None
           | Some p1 \<Rightarrow>
               if mem ! p1 = NUL then Some (mem, argv)
               else
                 (case skip_token mem p1 of
                    None \<Rightarrow> None
                  | Some p2 \<Rightarrow>
                      if mem ! p2 \<noteq> NUL then tokenize (mem[p2 := NUL]) (Suc p2) (argv @ [p1])
                      else tokenize mem p2 (argv @ [p1])))
        else Some (mem, argv)
      else None)"
  by pat_completeness auto
termination
proof (relation "measure (\<lambda>(mem, p, argv). length mem - p)", goal_cases)
  case 1
  then show ?case by simp
next
  case (2 mem p argv p1 p2)
  then show ?case
    using skip_spaces_Some [of mem p p1] skip_token_Some [of mem p1 p2] by auto
next
  case (3 mem p argv p1 p2)
  then show ?case
    using skip_spaces_Some [of mem p p1] skip_token_Some [of mem p1 p2] by auto
qed

declare tokenize.simps [simp del]

text \<open>
  \<^verbatim>\<open>dispatchTokens\<close>: the loop over \<^verbatim>\<open>_commands[i]\<close> from index \<open>i\<close> on. A command is
  given by its name, the characters of the C string \<^verbatim>\<open>name\<close>; \<^verbatim>\<open>strcmp(...) == 0\<close> is
  equality of the two strings.
\<close>

fun dispatch_from :: "string list \<Rightarrow> nat \<Rightarrow> string list \<Rightarrow> hra_event list" where
  "dispatch_from [] i argv = [Println ''ERR: Unknown command'']"
| "dispatch_from (name # rest) i argv =
     (if hd argv = name then [Handler i (length argv) argv]
      else dispatch_from rest (Suc i) argv)"

definition dispatchTokens :: "string list \<Rightarrow> string list \<Rightarrow> hra_event list" where
  "dispatchTokens cmds argv = (if length argv = 0 then [] else dispatch_from cmds 0 argv)"

fun read_args :: "char list \<Rightarrow> nat list \<Rightarrow> string list option" where
  "read_args mem [] = Some []"
| "read_args mem (a # as) =
     (case c_str mem a of
        None \<Rightarrow> None
      | Some s \<Rightarrow> (case read_args mem as of None \<Rightarrow> None | Some ss \<Rightarrow> Some (s # ss)))"

definition handleLine :: "string list \<Rightarrow> char list \<Rightarrow> (char list \<times> hra_event list) option" where
  "handleLine cmds line =
     (case tokenize line 0 [] of
        None \<Rightarrow> None
      | Some (mem, argv) \<Rightarrow>
          (case read_args mem argv of
             None \<Rightarrow> None
           | Some args \<Rightarrow> Some (mem, dispatchTokens cmds args)))"

subsection \<open>Reading the stream\<close>

text \<open>
  The object: the names of the registered commands, the caller's line buffer and its size,
  and the number of characters accumulated (both \<^verbatim>\<open>uint8_t\<close>).
\<close>

record HumanReadableApi =
  commands :: "string list"
  buffer :: "char list"
  bufferSize :: "8 word"
  len :: "8 word"

definition new_api :: "string list \<Rightarrow> char list \<Rightarrow> 8 word \<Rightarrow> HumanReadableApi" where
  "new_api cmds lineBuffer lineBufferSize =
     \<lparr>commands = cmds, buffer = lineBuffer, bufferSize = lineBufferSize, len = 0\<rparr>"

definition store_char :: "char list \<Rightarrow> nat \<Rightarrow> char \<Rightarrow> char list option" where
  "store_char mem i c = (if i < length mem then Some (mem[i := c]) else None)"

definition LF :: char where
  "LF = CHR 0x0A"

definition CR :: char where
  "CR = CHR 0x0D"

text \<open>
  The body of the loop of \<^verbatim>\<open>poll\<close> for one character read. In
  \<^verbatim>\<open>_len < (_bufferSize - 1)\<close> both operands are promoted to \<^verbatim>\<open>int\<close>, so the difference
  is \<open>-1\<close> when the size is 0.
\<close>

definition poll_char :: "char \<Rightarrow> HumanReadableApi \<Rightarrow> (HumanReadableApi \<times> hra_event list) option" where
  "poll_char c s =
     (if c = LF \<or> c = CR then
        if len s > 0 then
          (case store_char (buffer s) (unat (len s)) NUL of
             None \<Rightarrow> None
           | Some mem \<Rightarrow>
               (case handleLine (commands s) mem of
                  None \<Rightarrow> None
                | Some (mem', evs) \<Rightarrow> Some (s\<lparr>buffer := mem', len := 0\<rparr>, evs)))
        else Some (s, [])
      else
        if uint (len s) < uint (bufferSize s) - 1 then
          (case store_char (buffer s) (unat (len s)) c of
             None \<Rightarrow> None
           | Some mem \<Rightarrow> Some (s\<lparr>buffer := mem, len := len s + 1\<rparr>, []))
        else Some (s, []))"

text \<open>\<^verbatim>\<open>poll\<close> on the characters the stream has available, in order.\<close>

fun poll :: "char list \<Rightarrow> HumanReadableApi \<Rightarrow> (HumanReadableApi \<times> hra_event list) option" where
  "poll [] s = Some (s, [])"
| "poll (c # cs) s =
     (case poll_char c s of
        None \<Rightarrow> None
      | Some (s', evs) \<Rightarrow>
          (case poll cs s' of
             None \<Rightarrow> None
           | Some (s'', evs') \<Rightarrow> Some (s'', evs @ evs')))"

definition buffer_ok :: "HumanReadableApi \<Rightarrow> bool" where
  "buffer_ok s \<longleftrightarrow>
     length (buffer s) = unat (bufferSize s) \<and> (len s = 0 \<or> unat (len s) < unat (bufferSize s))"

text \<open>
  Splitting on spaces, as the description of the dispatcher has it: the maximal runs of
  characters other than the space, in order. \<open>handleLine\<close> is compared with it below.
\<close>

function split_spaces :: "string \<Rightarrow> string list" where
  "split_spaces [] = []"
| "split_spaces (c # cs) =
     (if c = SPACE then split_spaces cs
      else takeWhile (\<lambda>x. x \<noteq> SPACE) (c # cs) # split_spaces (dropWhile (\<lambda>x. x \<noteq> SPACE) cs))"
  by pat_completeness auto
termination
  by (relation "measure length") (auto simp: length_dropWhile_le less_Suc_eq_le)


subsection \<open>The tokens \<open>handleLine\<close> finds\<close>

text \<open>The bytes from offset \<open>p\<close> up to offset \<open>q\<close>.\<close>

definition seg :: "char list \<Rightarrow> nat \<Rightarrow> nat \<Rightarrow> char list" where
  "seg mem p q = take (q - p) (drop p mem)"

lemma NUL_neq_SPACE [simp]: "NUL \<noteq> SPACE" "SPACE \<noteq> NUL"
  by (simp_all add: NUL_def SPACE_def)

lemma seg_same [simp]: "seg mem p p = []"
  by (simp add: seg_def)

lemma length_seg: "q \<le> length mem \<Longrightarrow> length (seg mem p q) = q - p"
  by (simp add: seg_def)

lemma seg_nth: "q \<le> length mem \<Longrightarrow> i < q - p \<Longrightarrow> seg mem p q ! i = mem ! (p + i)"
  by (simp add: seg_def)

lemma seg_all:
  "q \<le> length mem \<Longrightarrow> (\<forall>i. p \<le> i \<and> i < q \<longrightarrow> P (mem ! i)) \<Longrightarrow> \<forall>c \<in> set (seg mem p q). P c"
  by (auto simp: in_set_conv_nth length_seg seg_nth)

lemma seg_append: "p \<le> q \<Longrightarrow> q \<le> r \<Longrightarrow> seg mem p r = seg mem p q @ seg mem q r"
proof -
  assume a: "p \<le> q" "q \<le> r"
  have "take (r - p) (drop p mem) =
        take (q - p) (drop p mem) @ take (r - p - (q - p)) (drop (q - p) (drop p mem))"
    using a by (metis add_diff_cancel_left' le_add_diff_inverse diff_le_mono take_add)
  then show ?thesis
    using a by (simp add: seg_def)
qed

lemma seg_Suc: "p < length mem \<Longrightarrow> seg mem p (Suc p) = [mem ! p]"
  by (simp add: seg_def take_Suc_conv_app_nth Cons_nth_drop_Suc [symmetric])

lemma seg_cong:
  assumes "length mem' = length mem" "q \<le> length mem" "\<forall>i. p \<le> i \<and> i < q \<longrightarrow> mem' ! i = mem ! i"
  shows "seg mem' p q = seg mem p q"
proof (rule nth_equalityI)
  show "length (seg mem' p q) = length (seg mem p q)"
    using assms by (simp add: length_seg)
  fix i assume "i < length (seg mem' p q)"
  then have "i < q - p" using assms by (simp add: length_seg)
  then show "seg mem' p q ! i = seg mem p q ! i"
    using assms by (simp add: seg_nth)
qed

lemma c_str_seg:
  assumes "p \<le> q" "q < length mem" "mem ! q = NUL" "\<forall>i. p \<le> i \<and> i < q \<longrightarrow> mem ! i \<noteq> NUL"
  shows "c_str mem p = Some (seg mem p q)"
proof -
  have d: "drop p mem = seg mem p q @ NUL # drop (Suc q) mem"
  proof -
    have "drop p mem = seg mem p q @ drop q mem"
      using assms(1) by (simp add: seg_def) (metis add_diff_inverse_nat append_take_drop_id drop_drop not_less add.commute)
    then show ?thesis
      using assms by (simp add: Cons_nth_drop_Suc [symmetric])
  qed
  have "\<forall>c \<in> set (seg mem p q). c \<noteq> NUL"
    using assms by (intro seg_all) simp_all
  then have "takeWhile (\<lambda>c. c \<noteq> NUL) (drop p mem) = seg mem p q"
    unfolding d by (simp add: takeWhile_append2)
  moreover have "NUL \<in> set (drop p mem)"
    unfolding d by simp
  ultimately show ?thesis
    by (simp add: c_str_def)
qed

lemma skip_spaces_run:
  "skip_spaces mem p = Some q \<Longrightarrow>
   p \<le> q \<and> q < length mem \<and> mem ! q \<noteq> SPACE \<and> (\<forall>i. p \<le> i \<and> i < q \<longrightarrow> mem ! i = SPACE)"
proof (induction mem p rule: skip_spaces.induct)
  case (1 mem p)
  show ?case
  proof (cases "p < length mem \<and> mem ! p = SPACE")
    case True
    with "1.prems" have "skip_spaces mem (Suc p) = Some q"
      by (subst (asm) skip_spaces.simps) simp
    with "1.IH" True have ih: "Suc p \<le> q" "q < length mem" "mem ! q \<noteq> SPACE"
        "\<forall>i. Suc p \<le> i \<and> i < q \<longrightarrow> mem ! i = SPACE"
      by simp_all
    have "mem ! i = SPACE" if "p \<le> i" "i < q" for i
    proof (cases "i = p")
      case True
      with \<open>p < length mem \<and> mem ! p = SPACE\<close> show ?thesis by simp
    next
      case False
      with that have "Suc p \<le> i" by simp
      with ih(4) that show ?thesis by simp
    qed
    with ih show ?thesis by simp
  next
    case False
    with "1.prems" show ?thesis
      by (subst (asm) skip_spaces.simps) (auto split: if_splits)
  qed
qed

lemma skip_token_run:
  "skip_token mem p = Some q \<Longrightarrow>
   p \<le> q \<and> q < length mem \<and> (mem ! q = NUL \<or> mem ! q = SPACE) \<and>
   (\<forall>i. p \<le> i \<and> i < q \<longrightarrow> mem ! i \<noteq> NUL \<and> mem ! i \<noteq> SPACE)"
proof (induction mem p rule: skip_token.induct)
  case (1 mem p)
  show ?case
  proof (cases "p < length mem \<and> mem ! p \<noteq> NUL \<and> mem ! p \<noteq> SPACE")
    case True
    with "1.prems" have "skip_token mem (Suc p) = Some q"
      by (subst (asm) skip_token.simps) simp
    with "1.IH" True have ih: "Suc p \<le> q" "q < length mem" "mem ! q = NUL \<or> mem ! q = SPACE"
        "\<forall>i. Suc p \<le> i \<and> i < q \<longrightarrow> mem ! i \<noteq> NUL \<and> mem ! i \<noteq> SPACE"
      by simp_all
    have "mem ! i \<noteq> NUL \<and> mem ! i \<noteq> SPACE" if "p \<le> i" "i < q" for i
    proof (cases "i = p")
      case True
      with \<open>p < length mem \<and> mem ! p \<noteq> NUL \<and> mem ! p \<noteq> SPACE\<close> show ?thesis by simp
    next
      case False
      with that have "Suc p \<le> i" by simp
      with ih(4) that show ?thesis by simp
    qed
    with ih show ?thesis by simp
  next
    case False
    with "1.prems" show ?thesis
      by (subst (asm) skip_token.simps) (auto split: if_splits)
  qed
qed

lemma skip_spaces_returns:
  "p \<le> t \<Longrightarrow> t < length mem \<Longrightarrow> mem ! t = NUL \<Longrightarrow> \<exists>q. skip_spaces mem p = Some q \<and> q \<le> t"
proof (induction mem p rule: skip_spaces.induct)
  case (1 mem p)
  show ?case
  proof (cases "mem ! p = SPACE")
    case True
    with "1.prems" have "p \<noteq> t" by auto
    with "1.prems" have "Suc p \<le> t" "p < length mem" by simp_all
    with "1.IH" True "1.prems" obtain q where "skip_spaces mem (Suc p) = Some q" "q \<le> t"
      by blast
    with True \<open>p < length mem\<close> show ?thesis
      by (subst skip_spaces.simps) simp
  next
    case False
    with "1.prems" show ?thesis
      by (subst skip_spaces.simps) simp
  qed
qed

lemma skip_token_returns:
  "p \<le> t \<Longrightarrow> t < length mem \<Longrightarrow> mem ! t = NUL \<Longrightarrow> \<exists>q. skip_token mem p = Some q \<and> q \<le> t"
proof (induction mem p rule: skip_token.induct)
  case (1 mem p)
  show ?case
  proof (cases "mem ! p \<noteq> NUL \<and> mem ! p \<noteq> SPACE")
    case True
    with "1.prems" have "p \<noteq> t" by auto
    with "1.prems" have "Suc p \<le> t" "p < length mem" by simp_all
    with "1.IH" True "1.prems" obtain q where "skip_token mem (Suc p) = Some q" "q \<le> t"
      by blast
    with True \<open>p < length mem\<close> show ?thesis
      by (subst skip_token.simps) simp
  next
    case False
    with "1.prems" show ?thesis
      by (subst skip_token.simps) auto
  qed
qed

lemma split_spaces_spaces:
  "\<forall>c \<in> set xs. c = SPACE \<Longrightarrow> split_spaces (xs @ ys) = split_spaces ys"
  by (induction xs) simp_all

lemma split_spaces_token:
  assumes "tok \<noteq> []" "\<forall>c \<in> set tok. c \<noteq> SPACE"
  shows "split_spaces (tok @ SPACE # ys) = tok # split_spaces ys"
    and "split_spaces tok = [tok]"
proof -
  obtain c cs where tok: "tok = c # cs"
    using assms(1) by (cases tok) auto
  have cs: "\<forall>x \<in> set cs. x \<noteq> SPACE" and c: "c \<noteq> SPACE"
    using assms(2) by (simp_all add: tok)
  have "takeWhile (\<lambda>x. x \<noteq> SPACE) (cs @ SPACE # ys) = cs"
    using cs by (simp add: takeWhile_append2)
  moreover have "dropWhile (\<lambda>x. x \<noteq> SPACE) (cs @ SPACE # ys) = SPACE # ys"
    using cs by (simp add: dropWhile_append2)
  ultimately show "split_spaces (tok @ SPACE # ys) = tok # split_spaces ys"
    using c by (simp add: tok)
  have tw: "takeWhile (\<lambda>x. x \<noteq> SPACE) cs = cs" and dw: "dropWhile (\<lambda>x. x \<noteq> SPACE) cs = []"
    using cs by simp_all
  show "split_spaces tok = [tok]"
    using c by (simp add: tok tw dw)
qed


lemma tokenize_correct:
  assumes "p \<le> t" "t < length mem" "mem ! t = NUL" "\<forall>i. p \<le> i \<and> i < t \<longrightarrow> mem ! i \<noteq> NUL"
  shows "\<exists>mem' new. tokenize mem p argv = Some (mem', argv @ new) \<and>
           length mem' = length mem \<and> mem' ! t = NUL \<and> (\<forall>i<p. mem' ! i = mem ! i) \<and>
           read_args mem' new = Some (take (10 - length argv) (split_spaces (seg mem p t)))"
  using assms
proof (induction mem p argv arbitrary: t rule: tokenize.induct)
  case (1 mem p argv)
  have plen: "p < length mem"
    using "1.prems" by simp
  show ?case
  proof (cases "mem ! p \<noteq> NUL \<and> length argv < 10")
    case False
    then have tk: "tokenize mem p argv = Some (mem, argv)"
      using plen by (subst tokenize.simps) auto
    have "take (10 - length argv) (split_spaces (seg mem p t)) = []"
    proof (cases "mem ! p = NUL")
      case True
      with "1.prems" have "p = t"
        by (metis le_neq_implies_less order_refl)
      then show ?thesis by simp
    next
      case nz: False
      with False show ?thesis by simp
    qed
    with tk "1.prems" show ?thesis
      by simp
  next
    case True
    obtain p1 where p1: "skip_spaces mem p = Some p1" "p1 \<le> t"
      using skip_spaces_returns [OF "1.prems"(1-3)] by blast
    from skip_spaces_run [OF p1(1)]
    have r1: "p \<le> p1" "p1 < length mem" "mem ! p1 \<noteq> SPACE"
        "\<forall>i. p \<le> i \<and> i < p1 \<longrightarrow> mem ! i = SPACE"
      by simp_all
    have "\<forall>c \<in> set (seg mem p p1). c = SPACE"
      using r1 by (intro seg_all) simp_all
    then have split1: "split_spaces (seg mem p t) = split_spaces (seg mem p1 t)"
      using seg_append [OF r1(1) p1(2), of mem] by (simp add: split_spaces_spaces)
    show ?thesis
    proof (cases "mem ! p1 = NUL")
      case z: True
      have "p1 = t"
        using z p1(2) r1(1) "1.prems"(4) by (metis le_neq_implies_less)
      then have "split_spaces (seg mem p t) = []"
        using split1 by simp
      moreover have "tokenize mem p argv = Some (mem, argv)"
        using plen True p1(1) z by (subst tokenize.simps) simp
      ultimately show ?thesis
        using "1.prems" by simp
    next
      case nz: False
      obtain p2 where p2: "skip_token mem p1 = Some p2" "p2 \<le> t"
        using skip_token_returns [OF p1(2) "1.prems"(2,3)] by blast
      from skip_token_run [OF p2(1)]
      have r2: "p1 \<le> p2" "p2 < length mem" "mem ! p2 = NUL \<or> mem ! p2 = SPACE"
          "\<forall>i. p1 \<le> i \<and> i < p2 \<longrightarrow> mem ! i \<noteq> NUL \<and> mem ! i \<noteq> SPACE"
        by simp_all
      have lt: "p1 < p2"
        using r2(1,3) nz r1(3) by (cases "p1 = p2") auto
      let ?tok = "seg mem p1 p2"
      have tok_ne: "?tok \<noteq> []"
        using lt r2(2) length_seg [of p2 mem p1] by auto
      have tok_sp: "\<forall>c \<in> set ?tok. c \<noteq> SPACE"
        using r2 by (intro seg_all) simp_all
      have more: "10 - length argv = Suc (10 - length (argv @ [p1]))"
        using True by auto
      have c_tok: "c_str mem' p1 = Some ?tok"
        if "length mem' = length mem" "mem' ! p2 = NUL" "\<forall>i<p2. mem' ! i = mem ! i" for mem'
      proof -
        have "c_str mem' p1 = Some (seg mem' p1 p2)"
          using that r2 by (intro c_str_seg) simp_all
        moreover have "seg mem' p1 p2 = ?tok"
          using that r2 by (intro seg_cong) simp_all
        ultimately show ?thesis by simp
      qed
      show ?thesis
      proof (cases "mem ! p2 \<noteq> NUL")
        case sp: True
        let ?mem1 = "mem[p2 := NUL]"
        have p2t: "Suc p2 \<le> t"
          using sp p2(2) "1.prems"(3) by (cases "p2 = t") auto
        have m2: "mem ! p2 = SPACE"
          using sp r2(3) by simp
        have tk: "tokenize mem p argv = tokenize ?mem1 (Suc p2) (argv @ [p1])"
          using plen True p1(1) nz p2(1) sp by (subst tokenize.simps) simp
        have pre: "t < length ?mem1" "?mem1 ! t = NUL"
            "\<forall>i. Suc p2 \<le> i \<and> i < t \<longrightarrow> ?mem1 ! i \<noteq> NUL"
          using "1.prems" p2t r1(1) r2(1) by auto
        from "1.IH"(1) [OF plen True p1(1) nz p2(1) sp p2t pre]
        obtain mem' new' where ih:
            "tokenize ?mem1 (Suc p2) (argv @ [p1]) = Some (mem', (argv @ [p1]) @ new')"
            "length mem' = length ?mem1" "mem' ! t = NUL" "\<forall>i<Suc p2. mem' ! i = ?mem1 ! i"
            "read_args mem' new' =
               Some (take (10 - length (argv @ [p1])) (split_spaces (seg ?mem1 (Suc p2) t)))"
          by blast
        have rest: "seg ?mem1 (Suc p2) t = seg mem (Suc p2) t"
          using "1.prems"(2) by (intro seg_cong) simp_all
        have "seg mem p1 t = ?tok @ seg mem p2 (Suc p2) @ seg mem (Suc p2) t"
          using seg_append [OF r2(1) p2(2), of mem] seg_append [of p2 "Suc p2" t mem] p2t
          by simp
        then have "seg mem p1 t = ?tok @ SPACE # seg mem (Suc p2) t"
          using r2(2) m2 by (simp add: seg_Suc)
        then have split2: "split_spaces (seg mem p t) = ?tok # split_spaces (seg mem (Suc p2) t)"
          using split1 split_spaces_token(1) [OF tok_ne tok_sp] by simp
        have "c_str mem' p1 = Some ?tok"
          using ih(2,4) r2(2) by (intro c_tok) simp_all
        then have "read_args mem' (p1 # new') =
            Some (take (10 - length argv) (split_spaces (seg mem p t)))"
          using ih(5) unfolding split2 more rest by simp
        moreover have "\<forall>i<p. mem' ! i = mem ! i"
          using ih(4) r1(1) lt by simp
        ultimately show ?thesis
          using tk ih(1,2,3) by (intro exI [of _ mem'] exI [of _ "p1 # new'"]) simp
      next
        case z2: False
        then have z2': "mem ! p2 = NUL" by simp
        have "p2 = t"
          using z2' p2(2) r2(1) r1(1) "1.prems"(4) by (metis le_neq_implies_less le_trans)
        have tk: "tokenize mem p argv = tokenize mem p2 (argv @ [p1])"
          using plen True p1(1) nz p2(1) z2' by (subst tokenize.simps) simp
        have pre: "p2 \<le> t" "t < length mem" "mem ! t = NUL" "\<forall>i. p2 \<le> i \<and> i < t \<longrightarrow> mem ! i \<noteq> NUL"
          using "1.prems" \<open>p2 = t\<close> by simp_all
        from "1.IH"(2) [OF plen True p1(1) nz p2(1) z2 pre]
        obtain mem' new' where ih:
            "tokenize mem p2 (argv @ [p1]) = Some (mem', (argv @ [p1]) @ new')"
            "length mem' = length mem" "mem' ! t = NUL" "\<forall>i<p2. mem' ! i = mem ! i"
            "read_args mem' new' =
               Some (take (10 - length (argv @ [p1])) (split_spaces (seg mem p2 t)))"
          by blast
        have "seg mem p1 t = ?tok"
          using \<open>p2 = t\<close> by simp
        then have split2: "split_spaces (seg mem p t) = ?tok # split_spaces (seg mem p2 t)"
          using split1 split_spaces_token(2) [OF tok_ne tok_sp] \<open>p2 = t\<close> by simp
        have "c_str mem' p1 = Some ?tok"
          using ih(2,3,4) \<open>p2 = t\<close> by (intro c_tok) simp_all
        then have "read_args mem' (p1 # new') =
            Some (take (10 - length argv) (split_spaces (seg mem p t)))"
          using ih(5) unfolding split2 more by simp
        moreover have "\<forall>i<p. mem' ! i = mem ! i"
          using ih(4) r1(1) lt by simp
        ultimately show ?thesis
          using tk ih(1,2,3) by (intro exI [of _ mem'] exI [of _ "p1 # new'"]) simp
      qed
    qed
  qed
qed


lemma split_spaces_tokens:
  "w \<in> set (split_spaces xs) \<Longrightarrow> w \<noteq> [] \<and> SPACE \<notin> set w"
proof (induction xs arbitrary: w rule: split_spaces.induct)
  case 1
  then show ?case by simp
next
  case (2 c cs)
  show ?case
  proof (cases "c = SPACE")
    case True
    with 2 show ?thesis by simp
  next
    case False
    with "2.prems" have "w = c # takeWhile (\<lambda>x. x \<noteq> SPACE) cs \<or>
        w \<in> set (split_spaces (dropWhile (\<lambda>x. x \<noteq> SPACE) cs))"
      by simp
    then show ?thesis
    proof
      assume "w = c # takeWhile (\<lambda>x. x \<noteq> SPACE) cs"
      with False show ?thesis
        by (auto dest: set_takeWhileD)
    next
      assume "w \<in> set (split_spaces (dropWhile (\<lambda>x. x \<noteq> SPACE) cs))"
      with "2.IH"(2) False show ?thesis by simp
    qed
  qed
qed

lemma split_spaces_Nil_iff: "split_spaces xs = [] \<longleftrightarrow> (\<forall>c \<in> set xs. c = SPACE)"
  by (induction xs rule: split_spaces.induct) auto

lemma first_NUL:
  assumes "NUL \<in> set mem"
  defines "t \<equiv> length (takeWhile (\<lambda>c. c \<noteq> NUL) mem)"
  shows "t < length mem" "mem ! t = NUL" "\<forall>i. 0 \<le> i \<and> i < t \<longrightarrow> mem ! i \<noteq> NUL"
    "seg mem 0 t = takeWhile (\<lambda>c. c \<noteq> NUL) mem"
proof -
  have "takeWhile (\<lambda>c. c \<noteq> NUL) mem \<noteq> mem"
    using assms(1) by (auto simp: takeWhile_eq_all_conv)
  then have "t \<noteq> length mem"
    unfolding t_def by (metis takeWhile_eq_take take_all order_refl)
  then show lt: "t < length mem"
    using length_takeWhile_le [of "\<lambda>c. c \<noteq> NUL" mem] unfolding t_def by simp
  show "mem ! t = NUL"
    using nth_length_takeWhile [of "\<lambda>c. c \<noteq> NUL" mem] lt unfolding t_def by simp
  have "mem ! i \<noteq> NUL" if "i < t" for i
  proof -
    have "takeWhile (\<lambda>c. c \<noteq> NUL) mem ! i \<in> set (takeWhile (\<lambda>c. c \<noteq> NUL) mem)"
      using that unfolding t_def by (rule nth_mem)
    then have "takeWhile (\<lambda>c. c \<noteq> NUL) mem ! i \<noteq> NUL"
      by (rule set_takeWhileD [THEN conjunct2])
    then show ?thesis
      using that unfolding t_def by (simp add: takeWhile_nth)
  qed
  then show "\<forall>i. 0 \<le> i \<and> i < t \<longrightarrow> mem ! i \<noteq> NUL"
    by simp
  have "takeWhile (\<lambda>c. c \<noteq> NUL) mem = take t mem"
    unfolding t_def by (rule takeWhile_eq_take)
  then show "seg mem 0 t = takeWhile (\<lambda>c. c \<noteq> NUL) mem"
    by (simp add: seg_def)
qed

lemma tokenize_line:
  assumes "NUL \<in> set line"
  shows "\<exists>mem'. tokenize line 0 [] \<noteq> None \<and>
           map_option fst (tokenize line 0 []) = Some mem' \<and> length mem' = length line \<and>
           NUL \<in> set mem' \<and>
           (case tokenize line 0 [] of None \<Rightarrow> None | Some (m, argv) \<Rightarrow> read_args m argv) =
             Some (take 10 (split_spaces (takeWhile (\<lambda>c. c \<noteq> NUL) line)))"
proof -
  let ?t = "length (takeWhile (\<lambda>c. c \<noteq> NUL) line)"
  note f = first_NUL [OF assms]
  from tokenize_correct [OF _ f(1,2,3), of "[]"]
  obtain mem' new where r: "tokenize line 0 [] = Some (mem', new)" "length mem' = length line"
      "mem' ! ?t = NUL"
      "read_args mem' new = Some (take 10 (split_spaces (seg line 0 ?t)))"
    by auto
  have "NUL \<in> set mem'"
    using r(2,3) f(1) by (metis nth_mem)
  with r show ?thesis
    by (simp add: f(4))
qed

lemma dispatch_from_miss:
  "hd argv \<notin> set cmds \<Longrightarrow> dispatch_from cmds i argv = [Println ''ERR: Unknown command'']"
  by (induction cmds arbitrary: i) auto

lemma dispatch_from_hit:
  "k < length cmds \<Longrightarrow> cmds ! k = hd argv \<Longrightarrow> \<forall>j<k. cmds ! j \<noteq> hd argv \<Longrightarrow>
   dispatch_from cmds i argv = [Handler (i + k) (length argv) argv]"
proof (induction cmds arbitrary: i k)
  case Nil
  then show ?case by simp
next
  case (Cons name rest)
  show ?case
  proof (cases k)
    case 0
    with Cons.prems show ?thesis by simp
  next
    case (Suc k')
    with Cons.prems have "name \<noteq> hd argv" by auto
    moreover have "dispatch_from rest (Suc i) argv = [Handler (Suc i + k') (length argv) argv]"
      using Cons.prems Suc by (intro Cons.IH) auto
    ultimately show ?thesis
      using Suc by simp
  qed
qed

lemma handleLine_returns:
  assumes "NUL \<in> set line"
  shows "\<exists>mem' evs. handleLine cmds line = Some (mem', evs) \<and> length mem' = length line"
proof -
  from tokenize_line [OF assms]
  obtain mem' argv args where "tokenize line 0 [] = Some (mem', argv)" "length mem' = length line"
      "read_args mem' argv = Some args"
    by (auto split: option.splits)
  then show ?thesis
    by (simp add: handleLine_def)
qed

text \<open>
  C4. On a line that is null-terminated, \<open>handleLine\<close> returns, and with \<open>toks\<close> the first
  ten of the words of the line split on spaces: a line of spaces only (or an empty one)
  invokes nothing and prints nothing; when the first word is the name of no command, the
  only effect is to print "ERR: Unknown command"; otherwise exactly one handler is invoked,
  that of the first command with that name, with the number of words and the words.
\<close>

theorem handleLine_dispatch:
  assumes "NUL \<in> set line"
  shows "\<exists>mem' evs. handleLine cmds line = Some (mem', evs) \<and> length mem' = length line \<and>
    (let toks = take 10 (split_spaces (takeWhile (\<lambda>c. c \<noteq> NUL) line)) in
       ((\<forall>c \<in> set (takeWhile (\<lambda>c. c \<noteq> NUL) line). c = SPACE) \<longrightarrow> evs = []) \<and>
       (toks \<noteq> [] \<and> hd toks \<notin> set cmds \<longrightarrow> evs = [Println ''ERR: Unknown command'']) \<and>
       (\<forall>k. toks \<noteq> [] \<and> k < length cmds \<and> cmds ! k = hd toks \<and> (\<forall>j<k. cmds ! j \<noteq> hd toks) \<longrightarrow>
          evs = [Handler k (length toks) toks]))"
proof -
  let ?toks = "take 10 (split_spaces (takeWhile (\<lambda>c. c \<noteq> NUL) line))"
  from tokenize_line [OF assms]
  obtain mem' argv where r: "tokenize line 0 [] = Some (mem', argv)" "length mem' = length line"
      "read_args mem' argv = Some ?toks"
    by (auto split: option.splits)
  then have h: "handleLine cmds line = Some (mem', dispatchTokens cmds ?toks)"
    by (simp add: handleLine_def)
  have e: "dispatchTokens cmds ?toks = []"
    if "\<forall>c \<in> set (takeWhile (\<lambda>c. c \<noteq> NUL) line). c = SPACE"
    using that split_spaces_Nil_iff [of "takeWhile (\<lambda>c. c \<noteq> NUL) line"]
    by (simp add: dispatchTokens_def)
  have m: "dispatchTokens cmds ?toks = [Println ''ERR: Unknown command'']"
    if "?toks \<noteq> []" "hd ?toks \<notin> set cmds"
    using that by (simp add: dispatchTokens_def dispatch_from_miss)
  have k: "dispatchTokens cmds ?toks = [Handler k (length ?toks) ?toks]"
    if "?toks \<noteq> []" "k < length cmds" "cmds ! k = hd ?toks" "\<forall>j<k. cmds ! j \<noteq> hd ?toks" for k
    using that dispatch_from_hit [of k cmds ?toks 0] by (simp add: dispatchTokens_def)
  show ?thesis
    unfolding h Let_def using r(2) e m k by blast
qed


theorem handleLine_dispatch_witness:
  "NUL \<in> set (''led  on'' @ [NUL]) \<and>
   (\<exists>mem'. handleLine [''set'', ''led'', ''led''] (''led  on'' @ [NUL]) =
      Some (mem', [Handler 1 2 [''led'', ''on'']])) \<and>
   (\<exists>mem'. handleLine [''set'', ''led''] (''blink 3'' @ [NUL]) =
      Some (mem', [Println ''ERR: Unknown command''])) \<and>
   (\<exists>mem'. handleLine [''set'', ''led''] (''   '' @ [NUL]) = Some (mem', []))"
proof -
  let ?line = "''led  on'' @ [NUL]"
  let ?cmds = "[''set'', ''led'', ''led'']"
  have n: "NUL \<in> set ?line"
    by simp
  have toks: "take 10 (split_spaces (takeWhile (\<lambda>c. c \<noteq> NUL) ?line)) = [''led'', ''on'']"
    by (simp add: NUL_def SPACE_def)
  from handleLine_dispatch [OF n, of ?cmds]
  obtain mem' evs where h: "handleLine ?cmds ?line = Some (mem', evs)"
    and k: "\<forall>k. [''led'', ''on''] \<noteq> [] \<and> k < length ?cmds \<and> ?cmds ! k = hd [''led'', ''on''] \<and>
               (\<forall>j<k. ?cmds ! j \<noteq> hd [''led'', ''on'']) \<longrightarrow>
             evs = [Handler k (length [''led'', ''on'']) [''led'', ''on'']]"
    unfolding toks Let_def by blast
  from k [rule_format, of 1] have "evs = [Handler 1 2 [''led'', ''on'']]"
    by simp
  with h have 1: "\<exists>mem'. handleLine ?cmds ?line = Some (mem', [Handler 1 2 [''led'', ''on'']])"
    by blast
  let ?line2 = "''blink 3'' @ [NUL]"
  have n2: "NUL \<in> set ?line2"
    by simp
  have toks2: "take 10 (split_spaces (takeWhile (\<lambda>c. c \<noteq> NUL) ?line2)) = [''blink'', ''3'']"
    by (simp add: NUL_def SPACE_def)
  from handleLine_dispatch [OF n2, of "[''set'', ''led'']"]
  obtain mem2 evs2 where h2: "handleLine [''set'', ''led''] ?line2 = Some (mem2, evs2)"
    and u: "[''blink'', ''3''] \<noteq> [] \<and> hd [''blink'', ''3''] \<notin> set [''set'', ''led''] \<longrightarrow>
              evs2 = [Println ''ERR: Unknown command'']"
    unfolding toks2 Let_def by blast
  from u have "evs2 = [Println ''ERR: Unknown command'']"
    by simp
  with h2 have 2: "\<exists>mem'. handleLine [''set'', ''led''] ?line2 =
      Some (mem', [Println ''ERR: Unknown command''])"
    by blast
  let ?line3 = "''   '' @ [NUL]"
  have n3: "NUL \<in> set ?line3"
    by simp
  have sp: "\<forall>c \<in> set (takeWhile (\<lambda>c. c \<noteq> NUL) ?line3). c = SPACE"
    by (simp add: NUL_def SPACE_def)
  from handleLine_dispatch [OF n3, of "[''set'', ''led'']"] sp
  have 3: "\<exists>mem'. handleLine [''set'', ''led''] ?line3 = Some (mem', [])"
    unfolding Let_def by blast
  from n 1 2 3 show ?thesis
    by blast
qed

subsection \<open>\<open>poll\<close> stays inside the buffer\<close>

lemma room_iff: "uint (l :: 8 word) < uint (n :: 8 word) - 1 \<longleftrightarrow> unat l + 1 < unat n"
proof -
  have "uint l = int (unat l)" "uint n = int (unat n)"
    by simp_all
  then show ?thesis
    by linarith
qed

lemma unat_len_Suc:
  assumes "unat (l :: 8 word) + 1 < unat (n :: 8 word)"
  shows "unat (l + 1) = unat l + 1"
proof -
  have "unat n < 2 ^ 8"
    using unsigned_less [of n, where 'a = nat] by simp
  with assms have "unat l + unat (1 :: 8 word) < 2 ^ LENGTH(8)"
    by simp
  then have "unat (l + 1) = unat l + unat (1 :: 8 word)"
    by (simp only: unat_add_lem [THEN iffD1])
  then show ?thesis by simp
qed

lemma poll_char_append:
  assumes "buffer_ok s" "c \<noteq> LF" "c \<noteq> CR"
  shows "poll_char c s =
     Some (if unat (len s) + 1 < unat (bufferSize s)
           then s\<lparr>buffer := (buffer s)[unat (len s) := c], len := len s + 1\<rparr> else s, [])"
  using assms by (auto simp: poll_char_def room_iff store_char_def buffer_ok_def)

lemma poll_char_line:
  assumes "buffer_ok s" "c = LF \<or> c = CR" "len s \<noteq> 0"
  shows "unat (len s) < unat (bufferSize s) \<and>
     NUL \<in> set ((buffer s)[unat (len s) := NUL]) \<and>
     (\<exists>mem' evs. handleLine (commands s) ((buffer s)[unat (len s) := NUL]) = Some (mem', evs) \<and>
        length mem' = length (buffer s) \<and>
        poll_char c s = Some (s\<lparr>buffer := mem', len := 0\<rparr>, evs))"
proof -
  have lt: "unat (len s) < length (buffer s)"
    using assms by (auto simp: buffer_ok_def)
  then have nul: "NUL \<in> set ((buffer s)[unat (len s) := NUL])"
    by (simp add: set_update_memI)
  from handleLine_returns [OF nul, of "commands s"]
  obtain mem' evs where h: "handleLine (commands s) ((buffer s)[unat (len s) := NUL]) = Some (mem', evs)"
      "length mem' = length (buffer s)"
    by auto
  have "len s > 0"
    using assms(3) by (simp add: word_greater_zero_iff)
  then have "poll_char c s = Some (s\<lparr>buffer := mem', len := 0\<rparr>, evs)"
    using assms(2) lt h by (simp add: poll_char_def store_char_def)
  with lt nul h assms(1) show ?thesis
    by (auto simp: buffer_ok_def)
qed

lemma poll_char_ok:
  assumes "buffer_ok s"
  shows "\<exists>s' evs. poll_char c s = Some (s', evs) \<and> buffer_ok s'"
proof (cases "c = LF \<or> c = CR")
  case False
  then have "poll_char c s =
     Some (if unat (len s) + 1 < unat (bufferSize s)
           then s\<lparr>buffer := (buffer s)[unat (len s) := c], len := len s + 1\<rparr> else s, [])"
    using poll_char_append [OF assms] by simp
  moreover have "buffer_ok (s\<lparr>buffer := (buffer s)[unat (len s) := c], len := len s + 1\<rparr>)"
    if "unat (len s) + 1 < unat (bufferSize s)"
    using that assms unat_len_Suc [OF that] by (simp add: buffer_ok_def)
  ultimately show ?thesis
    using assms by auto
next
  case True
  show ?thesis
  proof (cases "len s = 0")
    case True
    with \<open>c = LF \<or> c = CR\<close> assms show ?thesis
      by (auto simp: poll_char_def)
  next
    case False
    from poll_char_line [OF assms True False]
    obtain mem' evs where "length mem' = length (buffer s)"
        "poll_char c s = Some (s\<lparr>buffer := mem', len := 0\<rparr>, evs)"
      by blast
    with assms show ?thesis
      by (simp add: buffer_ok_def)
  qed
qed

lemma poll_ok:
  "buffer_ok s \<Longrightarrow> \<exists>s' evs. poll input s = Some (s', evs) \<and> buffer_ok s'"
proof (induction input arbitrary: s)
  case Nil
  then show ?case by simp
next
  case (Cons c cs)
  from poll_char_ok [OF Cons.prems, of c]
  obtain s1 e1 where 1: "poll_char c s = Some (s1, e1)" "buffer_ok s1"
    by blast
  from Cons.IH [OF 1(2)]
  obtain s2 e2 where 2: "poll cs s1 = Some (s2, e2)" "buffer_ok s2"
    by blast
  from 1 2 show ?case by simp
qed

lemma buffer_ok_new_api:
  "length lineBuffer = unat n \<Longrightarrow> buffer_ok (new_api cmds lineBuffer n)"
  by (simp add: buffer_ok_def new_api_def)

text \<open>
  C10. From a state where the buffer has \<open>bufferSize\<close> bytes and the accumulated length is 0
  or below \<open>bufferSize\<close> (as after the constructor, and after every \<open>poll\<close>), \<open>poll\<close> on any
  input stays inside the buffer. A character other than newline and carriage return is
  stored at the accumulated length when that is below \<open>bufferSize - 1\<close> and dropped
  otherwise; a newline or carriage return with a non-empty line stores NUL at the
  accumulated length, which is below \<open>bufferSize\<close>, and hands that null-terminated
  buffer to \<open>handleLine\<close>.
\<close>

theorem poll_writes_inside_buffer:
  assumes "buffer_ok s"
  shows "(\<exists>s' evs. poll input s = Some (s', evs) \<and> buffer_ok s') \<and>
    (c \<noteq> LF \<and> c \<noteq> CR \<longrightarrow>
       poll_char c s =
         Some (if unat (len s) + 1 < unat (bufferSize s)
               then s\<lparr>buffer := (buffer s)[unat (len s) := c], len := len s + 1\<rparr> else s, [])) \<and>
    ((c = LF \<or> c = CR) \<and> len s = 0 \<longrightarrow> poll_char c s = Some (s, [])) \<and>
    ((c = LF \<or> c = CR) \<and> len s \<noteq> 0 \<longrightarrow>
       unat (len s) < unat (bufferSize s) \<and>
       NUL \<in> set ((buffer s)[unat (len s) := NUL]) \<and>
       (\<exists>mem' evs. handleLine (commands s) ((buffer s)[unat (len s) := NUL]) = Some (mem', evs) \<and>
          length mem' = length (buffer s) \<and>
          poll_char c s = Some (s\<lparr>buffer := mem', len := 0\<rparr>, evs)))"
proof (intro conjI impI)
  show "\<exists>s' evs. poll input s = Some (s', evs) \<and> buffer_ok s'"
    using assms by (rule poll_ok)
next
  assume "c \<noteq> LF \<and> c \<noteq> CR"
  then show "poll_char c s =
         Some (if unat (len s) + 1 < unat (bufferSize s)
               then s\<lparr>buffer := (buffer s)[unat (len s) := c], len := len s + 1\<rparr> else s, [])"
    using poll_char_append [OF assms] by simp
next
  assume "(c = LF \<or> c = CR) \<and> len s = 0"
  then show "poll_char c s = Some (s, [])"
    by (auto simp: poll_char_def)
next
  assume a: "(c = LF \<or> c = CR) \<and> len s \<noteq> 0"
  from poll_char_line [OF assms] a
  have l: "unat (len s) < unat (bufferSize s) \<and>
     NUL \<in> set ((buffer s)[unat (len s) := NUL]) \<and>
     (\<exists>mem' evs. handleLine (commands s) ((buffer s)[unat (len s) := NUL]) = Some (mem', evs) \<and>
        length mem' = length (buffer s) \<and>
        poll_char c s = Some (s\<lparr>buffer := mem', len := 0\<rparr>, evs))"
    by blast
  then show "unat (len s) < unat (bufferSize s)" by blast
  from l show "NUL \<in> set ((buffer s)[unat (len s) := NUL])" by blast
  from l show "\<exists>mem' evs. handleLine (commands s) ((buffer s)[unat (len s) := NUL]) = Some (mem', evs) \<and>
          length mem' = length (buffer s) \<and>
          poll_char c s = Some (s\<lparr>buffer := mem', len := 0\<rparr>, evs)" by blast
qed

theorem poll_writes_inside_buffer_witness:
  "buffer_ok (new_api [''led''] [NUL, NUL, NUL, NUL] 4) \<and>
   (\<exists>s' evs. poll (''led on'' @ [LF]) (new_api [''led''] [NUL, NUL, NUL, NUL] 4) = Some (s', evs) \<and>
      buffer_ok s') \<and>
   poll_char (CHR ''l'') (new_api [''led''] [NUL, NUL, NUL, NUL] 4) =
     Some (\<lparr>commands = [''led''], buffer = [CHR ''l'', NUL, NUL, NUL], bufferSize = 4, len = 1\<rparr>, []) \<and>
   poll_char LF (new_api [''led''] [NUL, NUL, NUL, NUL] 4) =
     Some (new_api [''led''] [NUL, NUL, NUL, NUL] 4, []) \<and>
   buffer_ok \<lparr>commands = [''led''], buffer = ''ledx'', bufferSize = 4, len = 3\<rparr> \<and>
   poll_char (CHR ''y'') \<lparr>commands = [''led''], buffer = ''ledx'', bufferSize = 4, len = 3\<rparr> =
     Some (\<lparr>commands = [''led''], buffer = ''ledx'', bufferSize = 4, len = 3\<rparr>, []) \<and>
   (\<exists>mem' evs.
      handleLine [''led''] (''led'' @ [NUL]) = Some (mem', evs) \<and>
      poll_char LF \<lparr>commands = [''led''], buffer = ''ledx'', bufferSize = 4, len = 3\<rparr> =
        Some (\<lparr>commands = [''led''], buffer = mem', bufferSize = 4, len = 0\<rparr>, evs))"
proof -
  let ?s = "new_api [''led''] [NUL, NUL, NUL, NUL] 4"
  let ?s3 = "\<lparr>commands = [''led''], buffer = ''ledx'', bufferSize = 4, len = 3\<rparr>"
  have ok: "buffer_ok ?s"
    by (simp add: buffer_ok_def new_api_def)
  have c: "CHR ''l'' \<noteq> LF \<and> CHR ''l'' \<noteq> CR"
    by (simp add: LF_def CR_def)
  from poll_writes_inside_buffer [OF ok, of "''led on'' @ [LF]" "CHR ''l''"] c
  have 1: "(\<exists>s' evs. poll (''led on'' @ [LF]) ?s = Some (s', evs) \<and> buffer_ok s')"
    and 2: "poll_char (CHR ''l'') ?s =
         Some (if unat (len ?s) + 1 < unat (bufferSize ?s)
               then ?s\<lparr>buffer := (buffer ?s)[unat (len ?s) := CHR ''l''], len := len ?s + 1\<rparr> else ?s, [])"
    by blast+
  from poll_writes_inside_buffer [OF ok, of "[]" LF]
  have 3: "poll_char LF ?s = Some (?s, [])"
    by (simp add: new_api_def)
  from 2 have 4: "poll_char (CHR ''l'') ?s =
     Some (\<lparr>commands = [''led''], buffer = [CHR ''l'', NUL, NUL, NUL], bufferSize = 4, len = 1\<rparr>, [])"
    by (simp add: new_api_def)
  have ok3: "buffer_ok ?s3"
    by (simp add: buffer_ok_def)
  have y: "CHR ''y'' \<noteq> LF \<and> CHR ''y'' \<noteq> CR"
    by (simp add: LF_def CR_def)
  from poll_writes_inside_buffer [OF ok3, of "[]" "CHR ''y''"] y
  have 5: "poll_char (CHR ''y'') ?s3 = Some (?s3, [])"
    by simp
  have l3: "(LF = LF \<or> LF = CR) \<and> len ?s3 \<noteq> 0"
    by simp
  from poll_writes_inside_buffer [OF ok3, of "[]" LF] l3
  have 6: "\<exists>mem' evs.
      handleLine [''led''] (''led'' @ [NUL]) = Some (mem', evs) \<and>
      poll_char LF ?s3 = Some (\<lparr>commands = [''led''], buffer = mem', bufferSize = 4, len = 0\<rparr>, evs)"
    by simp blast
  from ok 1 4 3 ok3 5 6 show ?thesis
    by blast
qed

section \<open>The interpreter (libraries/TypthonMini)\<close>

text \<open>
  Only the header TypthonMini.h is among the sources: it declares the data (\<^verbatim>\<open>Value\<close>,
  \<^verbatim>\<open>Environment\<close>, \<^verbatim>\<open>FunctionObject\<close>, \<^verbatim>\<open>ExecutionResult\<close>) and the signatures of the member
  functions. The bodies of the member functions and the concrete
  statement and expression classes are modelled from the specification; each such
  definition says so.
\<close>

subsection \<open>Values, syntax trees, environments, results\<close>

text \<open>
  A \<^verbatim>\<open>std::shared_ptr<Environment>\<close> is an address in a store of environments, so that a
  closure and a call frame can share one environment. \<^verbatim>\<open>struct Value\<close> with the kinds
  None, Number, Boolean, Text, List and Function (a \<^verbatim>\<open>FunctionObject\<close>: parameters, body,
  closure); the kinds Dict, Tuple, Set, Class and Instance play no part in the properties
  below and are left out. The statement and expression classes are node kinds the
  specification lists (\<^verbatim>\<open>ExpressionKind\<close> in the header): those of control flow, scoping
  and calls.
\<close>

type_synonym env_ref = nat

datatype Value =
  VNone
| VNumber real
| VBoolean bool
| VText string
| VList "Value list"
| VFunction "string list" "Statement list" env_ref
and Expression =
  Literal Value
| Variable string
| Unary string Expression
| Binary string Expression Expression
| Call Expression "Expression list"
| ListExpr "Expression list"
and Statement =
  ExprStmt Expression
| Assign "string list" Expression
| Return "Expression option"
| Break
| Continue
| Pass
| If Expression "Statement list" "Statement list"
| While Expression "Statement list"
| For string Expression "Statement list"
| Global "string list"
| Nonlocal "string list"
| Def string "string list" "Statement list"
| Raise Expression
| Try "Statement list" "string option" "Statement list"

text \<open>
  \<^verbatim>\<open>struct Environment\<close> (the map \<^verbatim>\<open>types\<close> of declared types is left out: annotations are
  not checked here). The field \<^verbatim>\<open>values\<close> is \<open>env_values\<close>.
\<close>

record Environment =
  env_values :: "string \<rightharpoonup> Value"
  parent :: "env_ref option"
  globalsDeclared :: "string list"
  nonlocalsDeclared :: "string list"

type_synonym store = "Environment list"

text \<open>\<^verbatim>\<open>struct ExecutionResult\<close>, and the value its default member initialisers give.\<close>

record ExecutionResult =
  hasReturn :: bool
  returnValue :: Value
  breakLoop :: bool
  continueLoop :: bool
  hasException :: bool
  exceptionValue :: Value

definition normal_result :: ExecutionResult where
  "normal_result =
     \<lparr>hasReturn = False, returnValue = VNone, breakLoop = False, continueLoop = False,
      hasException = False, exceptionValue = VNone\<rparr>"

text \<open>A result is non-trivial when one of the four flags is set.\<close>

definition non_trivial :: "ExecutionResult \<Rightarrow> bool" where
  "non_trivial r \<longleftrightarrow> hasReturn r \<or> breakLoop r \<or> continueLoop r \<or> hasException r"

definition return_result :: "Value \<Rightarrow> ExecutionResult" where
  "return_result v = normal_result\<lparr>hasReturn := True, returnValue := v\<rparr>"

definition exception_result :: "Value \<Rightarrow> ExecutionResult" where
  "exception_result v = normal_result\<lparr>hasException := True, exceptionValue := v\<rparr>"

text \<open>
  Modelled from the spec: the member functions of \<^verbatim>\<open>Environment\<close> (\<^verbatim>\<open>hasLocal\<close>, \<^verbatim>\<open>define\<close>,
  \<^verbatim>\<open>get\<close>, \<^verbatim>\<open>assign\<close>), whose bodies are not among the sources. A read looks in the
  innermost scope first and then along the parents. An assignment to a name declared
  \<^verbatim>\<open>global\<close> targets the root of the chain, one to a name declared \<^verbatim>\<open>nonlocal\<close> the nearest
  enclosing scope that already defines the name (a runtime error, \<open>None\<close>, when there is
  none), and any other defines or overwrites in the innermost scope. The walks along the
  parents are bounded by the number of environments in the store.
\<close>

definition new_environment :: "env_ref option \<Rightarrow> Environment" where
  "new_environment parentEnv =
     \<lparr>env_values = Map.empty, parent = parentEnv, globalsDeclared = [], nonlocalsDeclared = []\<rparr>"

definition env_hasLocal :: "store \<Rightarrow> env_ref \<Rightarrow> string \<Rightarrow> bool" where
  "env_hasLocal st env name \<longleftrightarrow> env < length st \<and> env_values (st ! env) name \<noteq> None"

definition env_define :: "env_ref \<Rightarrow> string \<Rightarrow> Value \<Rightarrow> store \<Rightarrow> store" where
  "env_define env name v st =
     (if env < length st then st[env := (st ! env)\<lparr>env_values := (env_values (st ! env))(name \<mapsto> v)\<rparr>] else st)"

fun get_from :: "nat \<Rightarrow> store \<Rightarrow> env_ref \<Rightarrow> string \<Rightarrow> Value option" where
  "get_from 0 st env name = None"
| "get_from (Suc k) st env name =
     (if env < length st then
        (case env_values (st ! env) name of
           Some v \<Rightarrow> Some v
         | None \<Rightarrow> (case parent (st ! env) of None \<Rightarrow> None | Some p \<Rightarrow> get_from k st p name))
      else None)"

definition env_get :: "store \<Rightarrow> env_ref \<Rightarrow> string \<Rightarrow> Value option" where
  "env_get st env name = get_from (length st) st env name"

fun root_from :: "nat \<Rightarrow> store \<Rightarrow> env_ref \<Rightarrow> env_ref" where
  "root_from 0 st env = env"
| "root_from (Suc k) st env =
     (if env < length st then
        (case parent (st ! env) of None \<Rightarrow> env | Some p \<Rightarrow> root_from k st p)
      else env)"

definition root_env :: "store \<Rightarrow> env_ref \<Rightarrow> env_ref" where
  "root_env st env = root_from (length st) st env"

fun defining_from :: "nat \<Rightarrow> store \<Rightarrow> env_ref option \<Rightarrow> string \<Rightarrow> env_ref option" where
  "defining_from 0 st e name = None"
| "defining_from (Suc k) st None name = None"
| "defining_from (Suc k) st (Some env) name =
     (if env < length st then
        (if env_values (st ! env) name \<noteq> None then Some env
         else defining_from k st (parent (st ! env)) name)
      else None)"

definition env_assign :: "env_ref \<Rightarrow> string \<Rightarrow> Value \<Rightarrow> store \<Rightarrow> store option" where
  "env_assign env name v st =
     (if env < length st then
        if name \<in> set (globalsDeclared (st ! env)) then Some (env_define (root_env st env) name v st)
        else if name \<in> set (nonlocalsDeclared (st ! env)) then
          (case defining_from (length st) st (parent (st ! env)) name of
             None \<Rightarrow> None
           | Some target \<Rightarrow> Some (env_define target name v st))
        else Some (env_define env name v st)
      else None)"

fun assign_all :: "env_ref \<Rightarrow> string list \<Rightarrow> Value \<Rightarrow> store \<Rightarrow> store option" where
  "assign_all env [] v st = Some st"
| "assign_all env (name # names) v st =
     (case env_assign env name v st of None \<Rightarrow> None | Some st' \<Rightarrow> assign_all env names v st')"

text \<open>
  Modelled from the spec: truthiness (none, 0, the empty text, the empty list and false
  are falsy) and the operators on values; a runtime error is a value that is raised.
\<close>

fun truthy :: "Value \<Rightarrow> bool" where
  "truthy VNone = False"
| "truthy (VNumber x) = (x \<noteq> 0)"
| "truthy (VBoolean b) = b"
| "truthy (VText s) = (s \<noteq> [])"
| "truthy (VList vs) = (vs \<noteq> [])"
| "truthy (VFunction ps body cl) = True"

definition runtime_error :: "string \<Rightarrow> Value" where
  "runtime_error msg = VText msg"

fun unary_op :: "string \<Rightarrow> Value \<Rightarrow> Value + Value" where
  "unary_op op v =
     (if op = ''not'' then Inr (VBoolean (\<not> truthy v))
      else if op = ''-'' then (case v of VNumber x \<Rightarrow> Inr (VNumber (- x)) | _ \<Rightarrow> Inl (runtime_error ''type mismatch''))
      else Inl (runtime_error ''unknown operator''))"

fun binary_op :: "string \<Rightarrow> Value \<Rightarrow> Value \<Rightarrow> Value + Value" where
  "binary_op op a b =
     (if op = ''=='' then Inr (VBoolean (a = b))
      else if op = ''!='' then Inr (VBoolean (a \<noteq> b))
      else
        (case (a, b) of
           (VNumber x, VNumber y) \<Rightarrow>
             (if op = ''+'' then Inr (VNumber (x + y))
              else if op = ''-'' then Inr (VNumber (x - y))
              else if op = ''*'' then Inr (VNumber (x * y))
              else if op = ''<'' then Inr (VBoolean (x < y))
              else if op = ''<='' then Inr (VBoolean (x \<le> y))
              else if op = ''>'' then Inr (VBoolean (x > y))
              else if op = ''>='' then Inr (VBoolean (x \<ge> y))
              else Inl (runtime_error ''unknown operator''))
         | (VText s, VText t) \<Rightarrow>
             (if op = ''+'' then Inr (VText (s @ t)) else Inl (runtime_error ''type mismatch''))
         | _ \<Rightarrow> Inl (runtime_error ''type mismatch'')))"

subsection \<open>The evaluator\<close>

text \<open>
  Evaluation and execution return the store together with a value (\<open>Inr\<close>) or a raised
  exception (\<open>Inl\<close>), respectively an \<open>ExecutionResult\<close>. A program need not return: a
  bound \<open>n\<close> limits the depth of calls and the iterations of a \<^verbatim>\<open>while\<close> loop, and the
  result is \<open>None\<close> when the bound is used up. How a callable is called is a parameter
  \<open>call\<close> of the evaluator of expressions and the executor of statements; \<open>callFunction\<close>
  below ties the knot.

  Modelled from the spec: \<^verbatim>\<open>Expression::evaluate\<close> for the node kinds Literal, Variable,
  Unary, Binary, Call and List (the classes are not among the sources).
\<close>

type_synonym eval_result = "((Value + Value) \<times> store) option"
type_synonym exec_result = "(ExecutionResult \<times> store) option"
type_synonym call_fn = "Value \<Rightarrow> Value list \<Rightarrow> store \<Rightarrow> eval_result"

fun evaluate :: "call_fn \<Rightarrow> Expression \<Rightarrow> env_ref \<Rightarrow> store \<Rightarrow> eval_result"
  and evaluateList :: "call_fn \<Rightarrow> Expression list \<Rightarrow> env_ref \<Rightarrow> store \<Rightarrow> ((Value + Value list) \<times> store) option"
where
  "evaluate call (Literal v) env st = Some (Inr v, st)"
| "evaluate call (Variable name) env st =
     (case env_get st env name of
        None \<Rightarrow> Some (Inl (runtime_error ''undefined name''), st)
      | Some v \<Rightarrow> Some (Inr v, st))"
| "evaluate call (Unary op e) env st =
     (case evaluate call e env st of
        None \<Rightarrow> None
      | Some (Inl ex, st1) \<Rightarrow> Some (Inl ex, st1)
      | Some (Inr v, st1) \<Rightarrow> Some (unary_op op v, st1))"
| "evaluate call (Binary op l r) env st =
     (case evaluate call l env st of
        None \<Rightarrow> None
      | Some (Inl ex, st1) \<Rightarrow> Some (Inl ex, st1)
      | Some (Inr a, st1) \<Rightarrow>
          if op = ''and'' \<and> \<not> truthy a then Some (Inr (VBoolean False), st1)
          else if op = ''or'' \<and> truthy a then Some (Inr (VBoolean True), st1)
          else
            (case evaluate call r env st1 of
               None \<Rightarrow> None
             | Some (Inl ex, st2) \<Rightarrow> Some (Inl ex, st2)
             | Some (Inr b, st2) \<Rightarrow>
                 if op = ''and'' \<or> op = ''or'' then Some (Inr (VBoolean (truthy b)), st2)
                 else Some (binary_op op a b, st2)))"
| "evaluate call (Call callee args) env st =
     (case evaluate call callee env st of
        None \<Rightarrow> None
      | Some (Inl ex, st1) \<Rightarrow> Some (Inl ex, st1)
      | Some (Inr f, st1) \<Rightarrow>
          (case evaluateList call args env st1 of
             None \<Rightarrow> None
           | Some (Inl ex, st2) \<Rightarrow> Some (Inl ex, st2)
           | Some (Inr vs, st2) \<Rightarrow> call f vs st2))"
| "evaluate call (ListExpr es) env st =
     (case evaluateList call es env st of
        None \<Rightarrow> None
      | Some (Inl ex, st1) \<Rightarrow> Some (Inl ex, st1)
      | Some (Inr vs, st1) \<Rightarrow> Some (Inr (VList vs), st1))"
| "evaluateList call [] env st = Some (Inr [], st)"
| "evaluateList call (e # es) env st =
     (case evaluate call e env st of
        None \<Rightarrow> None
      | Some (Inl ex, st1) \<Rightarrow> Some (Inl ex, st1)
      | Some (Inr v, st1) \<Rightarrow>
          (case evaluateList call es env st1 of
             None \<Rightarrow> None
           | Some (Inl ex, st2) \<Rightarrow> Some (Inl ex, st2)
           | Some (Inr vs, st2) \<Rightarrow> Some (Inr (v # vs), st2)))"

text \<open>
  Modelled from the spec: the loop of a \<^verbatim>\<open>while\<close> statement, over the evaluation of its
  condition and the execution of its body in the environment of the loop. A result of the
  body with \<open>hasReturn\<close> or \<open>hasException\<close> stops the loop and is returned; \<open>breakLoop\<close>
  stops the loop and is consumed; otherwise (\<open>continueLoop\<close> or the trivial result) the
  next iteration begins.
\<close>

primrec whileLoop :: "nat \<Rightarrow> (store \<Rightarrow> eval_result) \<Rightarrow> (store \<Rightarrow> exec_result) \<Rightarrow> store \<Rightarrow> exec_result" where
  "whileLoop 0 cond body st = None"
| "whileLoop (Suc n) cond body st =
     (case cond st of
        None \<Rightarrow> None
      | Some (Inl ex, st1) \<Rightarrow> Some (exception_result ex, st1)
      | Some (Inr v, st1) \<Rightarrow>
          if \<not> truthy v then Some (normal_result, st1)
          else
            (case body st1 of
               None \<Rightarrow> None
             | Some (r, st2) \<Rightarrow>
                 if hasReturn r \<or> hasException r then Some (r, st2)
                 else if breakLoop r then Some (normal_result, st2)
                 else whileLoop n cond body st2))"

text \<open>
  Modelled from the spec: the loop of a \<^verbatim>\<open>for ... in ...\<close> statement over the items, with
  the same treatment of the result of the body; \<open>bind\<close> assigns the loop variable.
\<close>

primrec forLoop :: "(Value \<Rightarrow> store \<Rightarrow> store option) \<Rightarrow> (store \<Rightarrow> exec_result) \<Rightarrow> Value list \<Rightarrow> store \<Rightarrow> exec_result" where
  "forLoop bind body [] st = Some (normal_result, st)"
| "forLoop bind body (item # items) st =
     (case bind item st of
        None \<Rightarrow> Some (exception_result (runtime_error ''no binding for nonlocal''), st)
      | Some st1 \<Rightarrow>
          (case body st1 of
             None \<Rightarrow> None
           | Some (r, st2) \<Rightarrow>
               if hasReturn r \<or> hasException r then Some (r, st2)
               else if breakLoop r then Some (normal_result, st2)
               else forLoop bind body items st2))"

text \<open>
  Modelled from the spec: \<^verbatim>\<open>Statement::execute\<close> for the statements the specification
  describes (the classes are not among the sources), and \<^verbatim>\<open>Interpreter::executeBlock\<close>,
  declared in the header: the statements run in order, and the first non-trivial result
  is returned at once.
\<close>

fun execute :: "call_fn \<Rightarrow> nat \<Rightarrow> Statement \<Rightarrow> env_ref \<Rightarrow> store \<Rightarrow> exec_result"
  and executeBlock :: "call_fn \<Rightarrow> nat \<Rightarrow> Statement list \<Rightarrow> env_ref \<Rightarrow> store \<Rightarrow> exec_result"
where
  "execute call n (ExprStmt e) env st =
     (case evaluate call e env st of
        None \<Rightarrow> None
      | Some (Inl ex, st1) \<Rightarrow> Some (exception_result ex, st1)
      | Some (Inr v, st1) \<Rightarrow> Some (normal_result, st1))"
| "execute call n (Assign targets e) env st =
     (case evaluate call e env st of
        None \<Rightarrow> None
      | Some (Inl ex, st1) \<Rightarrow> Some (exception_result ex, st1)
      | Some (Inr v, st1) \<Rightarrow>
          (case assign_all env targets v st1 of
             None \<Rightarrow> Some (exception_result (runtime_error ''no binding for nonlocal''), st1)
           | Some st2 \<Rightarrow> Some (normal_result, st2)))"
| "execute call n (Return None) env st = Some (return_result VNone, st)"
| "execute call n (Return (Some e)) env st =
     (case evaluate call e env st of
        None \<Rightarrow> None
      | Some (Inl ex, st1) \<Rightarrow> Some (exception_result ex, st1)
      | Some (Inr v, st1) \<Rightarrow> Some (return_result v, st1))"
| "execute call n Break env st = Some (normal_result\<lparr>breakLoop := True\<rparr>, st)"
| "execute call n Continue env st = Some (normal_result\<lparr>continueLoop := True\<rparr>, st)"
| "execute call n Pass env st = Some (normal_result, st)"
| "execute call n (If cond thenSuite elseSuite) env st =
     (case evaluate call cond env st of
        None \<Rightarrow> None
      | Some (Inl ex, st1) \<Rightarrow> Some (exception_result ex, st1)
      | Some (Inr v, st1) \<Rightarrow>
          if truthy v then executeBlock call n thenSuite env st1
          else executeBlock call n elseSuite env st1)"
| "execute call n (While cond body) env st =
     whileLoop n (evaluate call cond env) (executeBlock call n body env) st"
| "execute call n (For var iterable body) env st =
     (case evaluate call iterable env st of
        None \<Rightarrow> None
      | Some (Inl ex, st1) \<Rightarrow> Some (exception_result ex, st1)
      | Some (Inr items, st1) \<Rightarrow>
          (case items of
             VList vs \<Rightarrow> forLoop (env_assign env var) (executeBlock call n body env) vs st1
           | _ \<Rightarrow> Some (exception_result (runtime_error ''not iterable''), st1)))"
| "execute call n (Global names) env st =
     Some (normal_result,
       if env < length st
       then st[env := (st ! env)\<lparr>globalsDeclared := globalsDeclared (st ! env) @ names\<rparr>] else st)"
| "execute call n (Nonlocal names) env st =
     Some (normal_result,
       if env < length st
       then st[env := (st ! env)\<lparr>nonlocalsDeclared := nonlocalsDeclared (st ! env) @ names\<rparr>] else st)"
| "execute call n (Def name params body) env st =
     Some (normal_result, env_define env name (VFunction params body env) st)"
| "execute call n (Raise e) env st =
     (case evaluate call e env st of
        None \<Rightarrow> None
      | Some (Inl ex, st1) \<Rightarrow> Some (exception_result ex, st1)
      | Some (Inr v, st1) \<Rightarrow> Some (exception_result v, st1))"
| "execute call n (Try body name handler) env st =
     (case executeBlock call n body env st of
        None \<Rightarrow> None
      | Some (r, st1) \<Rightarrow>
          if hasException r then
            executeBlock call n handler env
              (case name of None \<Rightarrow> st1 | Some x \<Rightarrow> env_define env x (exceptionValue r) st1)
          else Some (r, st1))"
| "executeBlock call n [] env st = Some (normal_result, st)"
| "executeBlock call n (s # ss) env st =
     (case execute call n s env st of
        None \<Rightarrow> None
      | Some (r, st1) \<Rightarrow> if non_trivial r then Some (r, st1) else executeBlock call n ss env st1)"

text \<open>
  Modelled from the spec: \<^verbatim>\<open>Interpreter::callFunction\<close>. A call of a function creates an
  environment whose parent is the closure, binds the parameters in order, and runs the
  body with \<open>executeBlock\<close>; the value of the call is \<open>returnValue\<close> when \<open>hasReturn\<close> is
  set and none otherwise. Builtins are not modelled.
\<close>

primrec callFunction :: "nat \<Rightarrow> Value \<Rightarrow> Value list \<Rightarrow> store \<Rightarrow> eval_result" where
  "callFunction 0 callable args st = None"
| "callFunction (Suc n) callable args st =
     (case callable of
        VFunction params body closure \<Rightarrow>
          if length args \<noteq> length params then Some (Inl (runtime_error ''wrong arity''), st)
          else
            (let env = length st;
                 st1 = fold (\<lambda>(p, a). env_define env p a) (zip params args)
                         (st @ [new_environment (Some closure)])
             in case executeBlock (callFunction n) n body env st1 of
                  None \<Rightarrow> None
                | Some (r, st2) \<Rightarrow>
                    if hasException r then Some (Inl (exceptionValue r), st2)
                    else if hasReturn r then Some (Inr (returnValue r), st2)
                    else Some (Inr VNone, st2))
      | _ \<Rightarrow> Some (Inl (runtime_error ''not callable''), st))"


definition num :: "real \<Rightarrow> Expression" where
  "num x = Literal (VNumber x)"

text \<open>The results in which at most one intent is set, as the statements produce them.\<close>

definition single_intent :: "ExecutionResult \<Rightarrow> bool" where
  "single_intent r \<longleftrightarrow>
     r = normal_result \<or> r = normal_result\<lparr>breakLoop := True\<rparr> \<or>
     r = normal_result\<lparr>continueLoop := True\<rparr> \<or>
     (\<exists>v. r = return_result v) \<or> (\<exists>v. r = exception_result v)"

subsection \<open>Calls, and the statements that stay in their frame\<close>









subsection \<open>Blocks\<close>







subsection \<open>Loops\<close>

lemma single_intent_simps:
  "single_intent normal_result" "single_intent (normal_result\<lparr>breakLoop := True\<rparr>)"
  "single_intent (normal_result\<lparr>continueLoop := True\<rparr>)"
  "single_intent (return_result v)" "single_intent (exception_result v)"
  by (auto simp: single_intent_def)

lemma whileLoop_single:
  assumes "\<And>s r s'. body s = Some (r, s') \<Longrightarrow> single_intent r"
  shows "whileLoop k cond body st = Some (r, st') \<Longrightarrow> single_intent r"
proof (induction k arbitrary: st)
  case 0
  then show ?case by simp
next
  case (Suc k)
  then show ?case
    using assms
    by (auto simp: single_intent_simps split: option.splits prod.splits sum.splits if_splits)
qed

lemma forLoop_single:
  assumes "\<And>s r s'. body s = Some (r, s') \<Longrightarrow> single_intent r"
  shows "forLoop bind body items st = Some (r, st') \<Longrightarrow> single_intent r"
proof (induction items arbitrary: st)
  case Nil
  then show ?case by (simp add: single_intent_simps)
next
  case (Cons item items)
  then show ?case
    using assms
    by (auto simp: single_intent_simps split: option.splits prod.splits sum.splits if_splits)
qed

lemma execute_single:
  "execute call n s env st = Some (r, st') \<Longrightarrow> single_intent r"
  "executeBlock call n ss env st = Some (r, st') \<Longrightarrow> single_intent r"
proof (induction call n s env st and call n ss env st arbitrary: r st' and r st'
    rule: execute_executeBlock.induct)
  case (1 call n e env st)
  then show ?case
    by (auto simp: single_intent_simps split: option.splits prod.splits sum.splits)
next
  case (2 call n targets e env st)
  then show ?case
    by (auto simp: single_intent_simps split: option.splits prod.splits sum.splits)
next
  case (3 call n env st)
  then show ?case by (auto simp: single_intent_simps)
next
  case (4 call n e env st)
  then show ?case
    by (auto simp: single_intent_simps split: option.splits prod.splits sum.splits)
next
  case (5 call n env st)
  then show ?case by (auto simp: single_intent_simps)
next
  case (6 call n env st)
  then show ?case by (auto simp: single_intent_simps)
next
  case (7 call n env st)
  then show ?case by (auto simp: single_intent_simps)
next
  case (8 call n cond thenSuite elseSuite env st)
  show ?case
  proof (cases "evaluate call cond env st")
    case None
    with "8.prems" show ?thesis by simp
  next
    case (Some a)
    obtain o1 st1 where a: "a = (o1, st1)" by (cases a)
    show ?thesis
    proof (cases o1)
      case (Inl ex)
      with "8.prems" Some a show ?thesis by (auto simp: single_intent_simps)
    next
      case (Inr v)
      show ?thesis
      proof (cases "truthy v")
        case True
        with "8.prems" Some a Inr have "executeBlock call n thenSuite env st1 = Some (r, st')"
          by simp
        with "8.IH"(1) [OF Some a [symmetric] Inr True] show ?thesis .
      next
        case False
        with "8.prems" Some a Inr have "executeBlock call n elseSuite env st1 = Some (r, st')"
          by simp
        with "8.IH"(2) [OF Some a [symmetric] Inr False] show ?thesis .
      qed
    qed
  qed
next
  case (9 call n cond body env st)
  from "9.prems" have "whileLoop n (evaluate call cond env) (executeBlock call n body env) st = Some (r, st')"
    by simp
  then show ?case
    using "9.IH" by (rule whileLoop_single [rotated]) blast
next
  case (10 call n var iterable body env st)
  show ?case
  proof (cases "evaluate call iterable env st")
    case None
    with "10.prems" show ?thesis by simp
  next
    case (Some a)
    obtain o1 st1 where a: "a = (o1, st1)" by (cases a)
    show ?thesis
    proof (cases o1)
      case (Inl ex)
      with "10.prems" Some a show ?thesis by (auto simp: single_intent_simps)
    next
      case (Inr items)
      show ?thesis
      proof (cases "\<exists>vs. items = VList vs")
        case True
        then obtain vs where vs: "items = VList vs" by blast
        with "10.prems" Some a Inr
        have "forLoop (env_assign env var) (executeBlock call n body env) vs st1 = Some (r, st')"
          by simp
        moreover have "single_intent r0" if "executeBlock call n body env s0 = Some (r0, s1)" for s0 r0 s1
          using "10.IH" [OF Some a [symmetric] Inr vs that] .
        ultimately show ?thesis
          by (rule forLoop_single [rotated])
      next
        case False
        with "10.prems" Some a Inr show ?thesis
          by (cases items) (auto simp: single_intent_simps)
      qed
    qed
  qed
next
  case (11 call n names env st)
  then show ?case by (auto simp: single_intent_simps)
next
  case (12 call n names env st)
  then show ?case by (auto simp: single_intent_simps)
next
  case (13 call n name params body env st)
  then show ?case by (auto simp: single_intent_simps)
next
  case (14 call n e env st)
  then show ?case
    by (auto simp: single_intent_simps split: option.splits prod.splits sum.splits)
next
  case (15 call n body name handler env st)
  show ?case
  proof (cases "executeBlock call n body env st")
    case None
    with "15.prems" show ?thesis by simp
  next
    case (Some a)
    obtain r1 st1 where a: "a = (r1, st1)" by (cases a)
    show ?thesis
    proof (cases "hasException r1")
      case True
      with "15.prems" Some a
      have "executeBlock call n handler env
              (case name of None \<Rightarrow> st1 | Some x \<Rightarrow> env_define env x (exceptionValue r1) st1) =
            Some (r, st')"
        by simp
      with "15.IH"(2) [OF Some a [symmetric] True] show ?thesis .
    next
      case False
      with "15.prems" Some a have "r = r1" by simp
      with "15.IH"(1) [of r1 st1] Some a show ?thesis by simp
    qed
  qed
next
  case (16 call n env st)
  then show ?case by (auto simp: single_intent_simps)
next
  case (17 call n s ss env st)
  show ?case
  proof (cases "execute call n s env st")
    case None
    with "17.prems" show ?thesis by simp
  next
    case (Some a)
    obtain r1 st1 where a: "a = (r1, st1)" by (cases a)
    show ?thesis
    proof (cases "non_trivial r1")
      case True
      with "17.prems" Some a have "r = r1" by simp
      with "17.IH"(1) [of r1 st1] Some a show ?thesis by simp
    next
      case False
      with "17.prems" Some a have "executeBlock call n ss env st1 = Some (r, st')"
        by simp
      with "17.IH"(2) [OF Some a [symmetric] False] show ?thesis .
    qed
  qed
qed

lemma single_intent_flags:
  assumes "single_intent r"
  shows "breakLoop r \<Longrightarrow> \<not> hasReturn r \<and> \<not> hasException r \<and> \<not> continueLoop r"
    and "continueLoop r \<Longrightarrow> \<not> hasReturn r \<and> \<not> hasException r \<and> \<not> breakLoop r"
    and "hasReturn r \<or> hasException r \<Longrightarrow> \<not> breakLoop r \<and> \<not> continueLoop r"
  using assms
  by (auto simp: single_intent_def normal_result_def return_result_def exception_result_def)

lemma whileLoop_no_leak:
  assumes "\<And>s r s'. body s = Some (r, s') \<Longrightarrow> single_intent r"
  shows "whileLoop k cond body st = Some (r, st') \<Longrightarrow> \<not> breakLoop r \<and> \<not> continueLoop r"
proof (induction k arbitrary: st)
  case 0
  then show ?case by simp
next
  case (Suc k)
  show ?case
  proof (cases "cond st")
    case None
    with Suc.prems show ?thesis by simp
  next
    case (Some a)
    obtain o1 st1 where a: "a = (o1, st1)" by (cases a)
    show ?thesis
    proof (cases o1)
      case (Inl ex)
      with Suc.prems Some a show ?thesis
        by (auto simp: exception_result_def normal_result_def)
    next
      case (Inr v)
      show ?thesis
      proof (cases "truthy v")
        case False
        with Suc.prems Some a Inr show ?thesis
          by (auto simp: normal_result_def)
      next
        case True
        show ?thesis
        proof (cases "body st1")
          case None
          with Suc.prems Some a Inr True show ?thesis by simp
        next
          case (Some b)
          obtain r1 st2 where b: "b = (r1, st2)" by (cases b)
          have s1: "single_intent r1"
            using assms Some b by blast
          consider "hasReturn r1 \<or> hasException r1" | "\<not> (hasReturn r1 \<or> hasException r1)" "breakLoop r1"
            | "\<not> (hasReturn r1 \<or> hasException r1)" "\<not> breakLoop r1"
            by blast
          then show ?thesis
          proof cases
            case 1
            with Suc.prems \<open>cond st = Some a\<close> a Inr True Some b have "r = r1" by simp
            with single_intent_flags(3) [OF s1 1] show ?thesis by simp
          next
            case 2
            with Suc.prems \<open>cond st = Some a\<close> a Inr True Some b have "r = normal_result" by simp
            then show ?thesis by (simp add: normal_result_def)
          next
            case 3
            with Suc.prems \<open>cond st = Some a\<close> a Inr True Some b
            have "whileLoop k cond body st2 = Some (r, st')" by simp
            then show ?thesis by (rule Suc.IH)
          qed
        qed
      qed
    qed
  qed
qed

lemma forLoop_no_leak:
  assumes "\<And>s r s'. body s = Some (r, s') \<Longrightarrow> single_intent r"
  shows "forLoop bind body items st = Some (r, st') \<Longrightarrow> \<not> breakLoop r \<and> \<not> continueLoop r"
proof (induction items arbitrary: st)
  case Nil
  then show ?case by (auto simp: normal_result_def)
next
  case (Cons item items)
  show ?case
  proof (cases "bind item st")
    case None
    with Cons.prems show ?thesis
      by (auto simp: exception_result_def normal_result_def)
  next
    case (Some st1)
    show ?thesis
    proof (cases "body st1")
      case None
      with Cons.prems Some show ?thesis by simp
    next
      case b: (Some b)
      obtain r1 st2 where b': "b = (r1, st2)" by (cases b)
      have s1: "single_intent r1"
        using assms b b' by blast
      consider "hasReturn r1 \<or> hasException r1" | "\<not> (hasReturn r1 \<or> hasException r1)" "breakLoop r1"
        | "\<not> (hasReturn r1 \<or> hasException r1)" "\<not> breakLoop r1"
        by blast
      then show ?thesis
      proof cases
        case 1
        with Cons.prems Some b b' have "r = r1" by simp
        with single_intent_flags(3) [OF s1 1] show ?thesis by simp
      next
        case 2
        with Cons.prems Some b b' have "r = normal_result" by simp
        then show ?thesis by (simp add: normal_result_def)
      next
        case 3
        with Cons.prems Some b b' have "forLoop bind body items st2 = Some (r, st')" by simp
        then show ?thesis by (rule Cons.IH)
      qed
    qed
  qed
qed

lemma while_no_leak:
  assumes "execute call n (While cond body) env st = Some (r, st')"
  shows "\<not> breakLoop r \<and> \<not> continueLoop r"
proof -
  from assms have "whileLoop n (evaluate call cond env) (executeBlock call n body env) st = Some (r, st')"
    by simp
  then show ?thesis
    by (rule whileLoop_no_leak [rotated]) (rule execute_single(2))
qed

lemma for_no_leak:
  assumes "execute call n (For var iterable body) env st = Some (r, st')"
  shows "\<not> breakLoop r \<and> \<not> continueLoop r"
proof (cases "evaluate call iterable env st")
  case None
  with assms show ?thesis by simp
next
  case (Some a)
  obtain o1 st1 where a: "a = (o1, st1)" by (cases a)
  show ?thesis
  proof (cases o1)
    case (Inl ex)
    with assms Some a show ?thesis
      by (auto simp: exception_result_def normal_result_def)
  next
    case (Inr items)
    show ?thesis
    proof (cases "\<exists>vs. items = VList vs")
      case True
      then obtain vs where "items = VList vs" by blast
      with assms Some a Inr
      have "forLoop (env_assign env var) (executeBlock call n body env) vs st1 = Some (r, st')"
        by simp
      then show ?thesis
        by (rule forLoop_no_leak [rotated]) (rule execute_single(2))
    next
      case False
      with assms Some a Inr show ?thesis
        by (cases items) (auto simp: exception_result_def normal_result_def)
    qed
  qed
qed

text \<open>
  C2. A \<^verbatim>\<open>while\<close> or \<^verbatim>\<open>for\<close> statement never returns a result with \<open>breakLoop\<close> or
  \<open>continueLoop\<close> set. In an iteration whose body returns \<open>r\<close>: when \<open>breakLoop r\<close>, the
  loop ends with the trivial result; when \<open>continueLoop r\<close>, the loop goes on with the
  next iteration (the next evaluation of the condition, the next item) from the state
  the body left; when \<open>hasReturn r\<close> or \<open>hasException r\<close>, the loop ends and returns \<open>r\<close>.
\<close>

theorem loops_consume_break_continue:
  "(execute call n (While cond body) env st = Some (r', st') \<longrightarrow> \<not> breakLoop r' \<and> \<not> continueLoop r') \<and>
   (execute call n (For var iterable body) env st = Some (r', st') \<longrightarrow> \<not> breakLoop r' \<and> \<not> continueLoop r') \<and>
   (evaluate call cond env st = Some (Inr v, st1) \<and> truthy v \<and>
    executeBlock call (Suc m) body env st1 = Some (r, st2) \<longrightarrow>
      (breakLoop r \<longrightarrow> execute call (Suc m) (While cond body) env st = Some (normal_result, st2)) \<and>
      (continueLoop r \<longrightarrow>
         execute call (Suc m) (While cond body) env st =
           whileLoop m (evaluate call cond env) (executeBlock call (Suc m) body env) st2) \<and>
      (hasReturn r \<or> hasException r \<longrightarrow>
         execute call (Suc m) (While cond body) env st = Some (r, st2))) \<and>
   (evaluate call iterable env st = Some (Inr (VList (item # items)), st0) \<and>
    env_assign env var item st0 = Some st1 \<and>
    executeBlock call n body env st1 = Some (r, st2) \<longrightarrow>
      (breakLoop r \<longrightarrow> execute call n (For var iterable body) env st = Some (normal_result, st2)) \<and>
      (continueLoop r \<longrightarrow>
         execute call n (For var iterable body) env st =
           forLoop (env_assign env var) (executeBlock call n body env) items st2) \<and>
      (hasReturn r \<or> hasException r \<longrightarrow>
         execute call n (For var iterable body) env st = Some (r, st2)))"
proof (intro conjI impI)
  assume "execute call n (While cond body) env st = Some (r', st')"
  then show "\<not> breakLoop r'" "\<not> continueLoop r'"
    using while_no_leak by blast+
next
  assume "execute call n (For var iterable body) env st = Some (r', st')"
  then show "\<not> breakLoop r'" "\<not> continueLoop r'"
    using for_no_leak by blast+
next
  assume a: "evaluate call cond env st = Some (Inr v, st1) \<and> truthy v \<and>
    executeBlock call (Suc m) body env st1 = Some (r, st2)"
  then have s: "single_intent r"
    using execute_single(2) by blast
  {
    assume "breakLoop r"
    with single_intent_flags(1) [OF s] a
    show "execute call (Suc m) (While cond body) env st = Some (normal_result, st2)"
      by simp
  }
  {
    assume "continueLoop r"
    with single_intent_flags(2) [OF s] a
    show "execute call (Suc m) (While cond body) env st =
           whileLoop m (evaluate call cond env) (executeBlock call (Suc m) body env) st2"
      by simp
  }
  {
    assume "hasReturn r \<or> hasException r"
    with a show "execute call (Suc m) (While cond body) env st = Some (r, st2)"
      by auto
  }
next
  assume a: "evaluate call iterable env st = Some (Inr (VList (item # items)), st0) \<and>
    env_assign env var item st0 = Some st1 \<and>
    executeBlock call n body env st1 = Some (r, st2)"
  then have s: "single_intent r"
    using execute_single(2) by blast
  {
    assume "breakLoop r"
    with single_intent_flags(1) [OF s] a
    show "execute call n (For var iterable body) env st = Some (normal_result, st2)"
      by simp
  }
  {
    assume "continueLoop r"
    with single_intent_flags(2) [OF s] a
    show "execute call n (For var iterable body) env st =
           forLoop (env_assign env var) (executeBlock call n body env) items st2"
      by simp
  }
  {
    assume "hasReturn r \<or> hasException r"
    with a show "execute call n (For var iterable body) env st = Some (r, st2)"
      by auto
  }
qed

theorem loops_consume_break_continue_witness:
  "evaluate (callFunction 1) (Literal (VBoolean True)) 0 [new_environment None] =
     Some (Inr (VBoolean True), [new_environment None]) \<and>
   truthy (VBoolean True) \<and>
   executeBlock (callFunction 1) (Suc 0) [Pass, Break, Raise (num 1)] 0 [new_environment None] =
     Some (normal_result\<lparr>breakLoop := True\<rparr>, [new_environment None]) \<and>
   execute (callFunction 1) (Suc 0) (While (Literal (VBoolean True)) [Pass, Break, Raise (num 1)])
     0 [new_environment None] = Some (normal_result, [new_environment None]) \<and>
   executeBlock (callFunction 1) (Suc 0) [Return (Some (num 3))] 0 [new_environment None] =
     Some (return_result (VNumber 3), [new_environment None]) \<and>
   execute (callFunction 1) (Suc 0) (While (Literal (VBoolean True)) [Return (Some (num 3))])
     0 [new_environment None] = Some (return_result (VNumber 3), [new_environment None]) \<and>
   execute (callFunction 1) 1 (For ''i'' (ListExpr [num 1, num 2]) [Continue, Raise (num 1)])
     0 [new_environment None] =
     forLoop (env_assign 0 ''i'') (executeBlock (callFunction 1) 1 [Continue, Raise (num 1)] 0)
       [VNumber 2] (env_define 0 ''i'' (VNumber 1) [new_environment None])"
proof -
  let ?st = "[new_environment None]"
  let ?call = "callFunction 1"
  have 1: "evaluate ?call (Literal (VBoolean True)) 0 ?st = Some (Inr (VBoolean True), ?st)"
    by simp
  have 2: "truthy (VBoolean True)"
    by simp
  have 3: "executeBlock ?call (Suc 0) [Pass, Break, Raise (num 1)] 0 ?st =
      Some (normal_result\<lparr>breakLoop := True\<rparr>, ?st)"
    by (simp add: non_trivial_def normal_result_def)
  have 4: "breakLoop (normal_result\<lparr>breakLoop := True\<rparr>)"
    by simp
  from loops_consume_break_continue [of ?call _ "Literal (VBoolean True)"
      "[Pass, Break, Raise (num 1)]" 0 ?st _ _ _ _ "VBoolean True" ?st 0
      "normal_result\<lparr>breakLoop := True\<rparr>" ?st] 1 2 3 4
  have 5: "execute ?call (Suc 0) (While (Literal (VBoolean True)) [Pass, Break, Raise (num 1)]) 0 ?st =
      Some (normal_result, ?st)"
    by blast
  have 6: "executeBlock ?call (Suc 0) [Return (Some (num 3))] 0 ?st =
      Some (return_result (VNumber 3), ?st)"
    by (simp add: num_def non_trivial_def return_result_def normal_result_def)
  have 7: "hasReturn (return_result (VNumber 3))"
    by (simp add: return_result_def)
  from loops_consume_break_continue [of ?call _ "Literal (VBoolean True)"
      "[Return (Some (num 3))]" 0 ?st _ _ _ _ "VBoolean True" ?st 0
      "return_result (VNumber 3)" ?st] 1 2 6 7
  have 8: "execute ?call (Suc 0) (While (Literal (VBoolean True)) [Return (Some (num 3))]) 0 ?st =
      Some (return_result (VNumber 3), ?st)"
    by blast
  let ?st1 = "env_define 0 ''i'' (VNumber 1) ?st"
  have 9: "evaluate ?call (ListExpr [num 1, num 2]) 0 ?st =
      Some (Inr (VList (VNumber 1 # [VNumber 2])), ?st)"
    by (simp add: num_def)
  have 10: "env_assign 0 ''i'' (VNumber 1) ?st = Some ?st1"
    by (simp add: env_assign_def new_environment_def)
  have 11: "executeBlock ?call 1 [Continue, Raise (num 1)] 0 ?st1 =
      Some (normal_result\<lparr>continueLoop := True\<rparr>, ?st1)"
    by (simp add: non_trivial_def normal_result_def)
  have 12: "continueLoop (normal_result\<lparr>continueLoop := True\<rparr>)"
    by simp
  from loops_consume_break_continue [of ?call 1 _ "[Continue, Raise (num 1)]" 0 ?st _ _ "''i''"
      "ListExpr [num 1, num 2]" _ ?st1 _ "normal_result\<lparr>continueLoop := True\<rparr>" ?st1
      "VNumber 1" "[VNumber 2]" ?st] 9 10 11 12
  have 13: "execute ?call 1 (For ''i'' (ListExpr [num 1, num 2]) [Continue, Raise (num 1)]) 0 ?st =
      forLoop (env_assign 0 ''i'') (executeBlock ?call 1 [Continue, Raise (num 1)] 0)
        [VNumber 2] ?st1"
    by blast
  from 1 2 3 5 6 8 13 show ?thesis
    by simp
qed

subsection \<open>Scopes\<close>
































end
